theory Spec2Isabelle
  imports Complex_Main
begin

section \<open>Values of the host language\<close>

text \<open>
  The module \<^verbatim>\<open>src/server/utils/pagination-helpers.ts\<close> computes with JavaScript
  numbers, strings, \<^verbatim>\<open>undefined\<close> and plain objects.

  \<^item> A number is a finite value, one of the two infinities, or NaN. A finite value is
    given by its rational value. \<^verbatim>\<open>Number\<close> and the arithmetic operators round their
    exact result to binary64 (to the nearest value, ties to the even one, beyond the
    largest value to infinity), as the language does. Negative zero is identified with
    zero.
  \<^item> An optional value (\<^verbatim>\<open>undefined\<close> or a value) is an \<open>option\<close>.
  \<^item> A string is a \<open>string\<close>, its characters read as code units below 256.
  \<^item> A thrown exception is the left summand of a sum type.
\<close>

datatype jsnum = Num rat | PInf | NInf | NaN

datatype error = TypeError

subsection \<open>Rounding to binary64\<close>

text \<open>The number of binary digits of a positive integer.\<close>

function bit_length :: "int \<Rightarrow> int" where
  "bit_length n = (if n \<le> 0 then 0 else 1 + bit_length (n div 2))"
  by pat_completeness auto
termination
  by (relation "measure nat") auto

declare bit_length.simps [simp del]

definition pow2 :: "int \<Rightarrow> rat" where
  "pow2 e = (if 0 \<le> e then 2 ^ nat e else 1 / 2 ^ nat (- e))"

text \<open>The binary exponent of a positive rational: \<open>pow2 (expo x) \<le> x < pow2 (expo x + 1)\<close>.\<close>

definition expo :: "rat \<Rightarrow> int" where
  "expo x =
     (if 1 \<le> x then bit_length \<lfloor>x\<rfloor> - 1 else - bit_length (\<lceil>1 / x\<rceil> - 1))"

text \<open>The nearest integer, the even one of the two when they are equally near.\<close>

definition round_even :: "rat \<Rightarrow> int" where
  "round_even y =
     (let f = \<lfloor>y\<rfloor>; d = y - of_int f
      in if d < 1 / 2 then f else if 1 / 2 < d then f + 1 else if even f then f else f + 1)"

text \<open>
  The exponent of the last place of a binary64 value near \<open>x\<close>: 53 significant bits,
  and no place below \<open>2 ^ - 1074\<close>.
\<close>

definition quantum :: "rat \<Rightarrow> int" where
  "quantum x = max (expo \<bar>x\<bar> - 52) (- 1074)"

text \<open>
  The binary64 value of a rational: rounded to a multiple of its last place, and
  infinite when that is \<open>2 ^ 1024\<close> or more in magnitude.
\<close>

definition binary64 :: "rat \<Rightarrow> jsnum" where
  "binary64 x =
     (if x = 0 then Num 0
      else
        let r = of_int (round_even (x / pow2 (quantum x))) * pow2 (quantum x)
        in if 1024 \<le> expo \<bar>r\<bar> then (if 0 < x then PInf else NInf) else Num r)"

subsection \<open>Operators\<close>

text \<open>Truthiness of a number (\<^verbatim>\<open>ToBoolean\<close>): zero and NaN are falsy.\<close>

fun truthy :: "jsnum \<Rightarrow> bool" where
  "truthy (Num q) = (q \<noteq> 0)"
| "truthy NaN = False"
| "truthy PInf = True"
| "truthy NInf = True"

text \<open>The relational operator \<^verbatim>\<open>x > y\<close> on numbers: false as soon as one side is NaN.\<close>

fun js_gt :: "jsnum \<Rightarrow> jsnum \<Rightarrow> bool" where
  "js_gt NaN y = False"
| "js_gt x NaN = False"
| "js_gt (Num a) (Num b) = (b < a)"
| "js_gt (Num a) PInf = False"
| "js_gt (Num a) NInf = True"
| "js_gt PInf PInf = False"
| "js_gt PInf y = True"
| "js_gt NInf y = False"

fun js_neg :: "jsnum \<Rightarrow> jsnum" where
  "js_neg (Num a) = Num (- a)"
| "js_neg PInf = NInf"
| "js_neg NInf = PInf"
| "js_neg NaN = NaN"

text \<open>\<^verbatim>\<open>x - y\<close>, \<^verbatim>\<open>x * y\<close> and \<^verbatim>\<open>x / y\<close> on numbers.\<close>

fun js_sub :: "jsnum \<Rightarrow> jsnum \<Rightarrow> jsnum" where
  "js_sub NaN y = NaN"
| "js_sub x NaN = NaN"
| "js_sub (Num a) (Num b) = binary64 (a - b)"
| "js_sub (Num a) PInf = NInf"
| "js_sub (Num a) NInf = PInf"
| "js_sub PInf PInf = NaN"
| "js_sub PInf y = PInf"
| "js_sub NInf NInf = NaN"
| "js_sub NInf y = NInf"

fun js_mul :: "jsnum \<Rightarrow> jsnum \<Rightarrow> jsnum" where
  "js_mul NaN y = NaN"
| "js_mul x NaN = NaN"
| "js_mul (Num a) (Num b) = binary64 (a * b)"
| "js_mul (Num a) PInf = (if a = 0 then NaN else if 0 < a then PInf else NInf)"
| "js_mul (Num a) NInf = (if a = 0 then NaN else if 0 < a then NInf else PInf)"
| "js_mul PInf (Num b) = (if b = 0 then NaN else if 0 < b then PInf else NInf)"
| "js_mul NInf (Num b) = (if b = 0 then NaN else if 0 < b then NInf else PInf)"
| "js_mul PInf PInf = PInf"
| "js_mul PInf NInf = NInf"
| "js_mul NInf PInf = NInf"
| "js_mul NInf NInf = PInf"

fun js_div :: "jsnum \<Rightarrow> jsnum \<Rightarrow> jsnum" where
  "js_div NaN y = NaN"
| "js_div x NaN = NaN"
| "js_div (Num a) (Num b) =
     (if b \<noteq> 0 then binary64 (a / b)
      else if a = 0 then NaN else if 0 < a then PInf else NInf)"
| "js_div (Num a) PInf = Num 0"
| "js_div (Num a) NInf = Num 0"
| "js_div PInf (Num b) = (if 0 \<le> b then PInf else NInf)"
| "js_div NInf (Num b) = (if 0 \<le> b then NInf else PInf)"
| "js_div PInf y = NaN"
| "js_div NInf y = NaN"

text \<open>\<^verbatim>\<open>Math.ceil\<close>, which needs no rounding on a binary64 value.\<close>

fun Math_ceil :: "jsnum \<Rightarrow> jsnum" where
  "Math_ceil (Num a) = Num (of_int \<lceil>a\<rceil>)"
| "Math_ceil x = x"

section \<open>Offset pagination\<close>

text \<open>
  \<^verbatim>\<open>
  export function getPagination(limit: number, page: number | undefined) {
    const take = limit > 0 ? limit : undefined;
    const skip = page && take ? (page - 1) * take : undefined;
    return { take, skip };
  }
  \<close>
  In \<^verbatim>\<open>page && take\<close> both operands are tested for truthiness: \<^verbatim>\<open>undefined\<close> is
  falsy, a number is falsy when it is zero or NaN. The fields \<^verbatim>\<open>take\<close> and \<^verbatim>\<open>skip\<close> of
  the result are written \<open>take_opt\<close> and \<open>skip_opt\<close>.
\<close>

record pagination =
  take_opt :: "jsnum option"
  skip_opt :: "jsnum option"

definition getPagination :: "jsnum \<Rightarrow> jsnum option \<Rightarrow> pagination" where
  "getPagination limit page =
     (let take = (if js_gt limit (Num 0) then Some limit else None);
          skip = (case page of
                    None \<Rightarrow> None
                  | Some p \<Rightarrow>
                      (case take of
                         None \<Rightarrow> None
                       | Some t \<Rightarrow>
                           if truthy p \<and> truthy t then Some (js_mul (js_sub p (Num 1)) t)
                           else None))
      in \<lparr> take_opt = take, skip_opt = skip \<rparr>)"

text \<open>
  \<^verbatim>\<open>
  export function getPagingData<T>(
    data: { count?: number; items: T[] }, limit?: number, page?: number) {
    const { count: totalItems = 0, items } = data;
    const currentPage = page ?? 1;
    const pageSize = limit ?? totalItems;
    const totalPages = pageSize && totalItems ? Math.ceil((totalItems as number) / pageSize) : 1;
    return { items, totalItems, currentPage, pageSize, totalPages };
  }
  \<close>
  A count that is missing defaults to 0, a missing page to 1 and a missing limit to the
  number of items. The field \<^verbatim>\<open>items\<close> of the result is written \<open>pd_items\<close>.
\<close>

record 'a paging_input =
  count :: "jsnum option"
  items :: "'a list"

record 'a paging_data =
  pd_items :: "'a list"
  totalItems :: jsnum
  currentPage :: jsnum
  pageSize :: jsnum
  totalPages :: jsnum

definition getPagingData :: "'a paging_input \<Rightarrow> jsnum option \<Rightarrow> jsnum option \<Rightarrow> 'a paging_data" where
  "getPagingData data limit page =
     (let totalItems = (case count data of None \<Rightarrow> Num 0 | Some c \<Rightarrow> c);
          currentPage = (case page of None \<Rightarrow> Num 1 | Some p \<Rightarrow> p);
          pageSize = (case limit of None \<Rightarrow> totalItems | Some l \<Rightarrow> l);
          totalPages = (if truthy pageSize \<and> truthy totalItems
                        then Math_ceil (js_div totalItems pageSize) else Num 1)
      in \<lparr> pd_items = items data, totalItems = totalItems, currentPage = currentPage,
           pageSize = pageSize, totalPages = totalPages \<rparr>)"

section \<open>Strings\<close>

text \<open>
  \<^verbatim>\<open>String.prototype.split\<close> with a one-character separator: the pieces between the
  separators, so the empty string gives one empty piece.
\<close>

fun split_from :: "char \<Rightarrow> string \<Rightarrow> string \<Rightarrow> string list" where
  "split_from sep cur [] = [cur]"
| "split_from sep cur (c # cs) =
     (if c = sep then cur # split_from sep [] cs else split_from sep (cur @ [c]) cs)"

definition str_split :: "char \<Rightarrow> string \<Rightarrow> string list" where
  "str_split sep s = split_from sep [] s"

text \<open>
  White space as \<^verbatim>\<open>trim\<close> and \<^verbatim>\<open>Number\<close> see it, among code units below 256: tab, line
  feed, vertical tab, form feed, carriage return, space and no-break space.
\<close>

definition is_space :: "char \<Rightarrow> bool" where
  "is_space c =
     (c \<in> set [CHR 0x09, CHR 0x0A, CHR 0x0B, CHR 0x0C, CHR 0x0D, CHR 0x20, CHR 0xA0])"

definition str_trim :: "string \<Rightarrow> string" where
  "str_trim s = rev (dropWhile is_space (rev (dropWhile is_space s)))"

text \<open>
  \<^verbatim>\<open>toUpperCase\<close> on the letters a to z. Other characters are left as they are: the
  result is only ever compared with \<^verbatim>\<open>'DESC'\<close>, and a string with a code unit below
  256 that is not a letter from a to z or A to Z never has the upper case \<^verbatim>\<open>DESC\<close>.
\<close>

definition toUpperCase_char :: "char \<Rightarrow> char" where
  "toUpperCase_char c =
     (case map_of (zip ''abcdefghijklmnopqrstuvwxyz'' ''ABCDEFGHIJKLMNOPQRSTUVWXYZ'') c of
        Some u \<Rightarrow> u
      | None \<Rightarrow> c)"

definition toUpperCase :: "string \<Rightarrow> string" where
  "toUpperCase s = map toUpperCase_char s"

text \<open>
  \<^verbatim>\<open>Array.prototype.join\<close>: an element that is \<^verbatim>\<open>undefined\<close> contributes the empty
  string.
\<close>

fun Array_join :: "string \<Rightarrow> string option list \<Rightarrow> string" where
  "Array_join sep [] = []"
| "Array_join sep [x] = (case x of None \<Rightarrow> [] | Some s \<Rightarrow> s)"
| "Array_join sep (x # y # ys) =
     (case x of None \<Rightarrow> [] | Some s \<Rightarrow> s) @ sep @ Array_join sep (y # ys)"

text \<open>
  \<^verbatim>\<open>undefined\<close> used as a property key or spliced into a string reads
  \<^verbatim>\<open>"undefined"\<close>.
\<close>

definition ToString :: "string option \<Rightarrow> string" where
  "ToString x = (case x of None \<Rightarrow> ''undefined'' | Some s \<Rightarrow> s)"

subsection \<open>Number applied to a string\<close>

text \<open>
  \<^verbatim>\<open>Number(s)\<close> follows the grammar of numeric string literals: white space around
  is dropped, the empty string is 0, a literal is a hexadecimal, octal or binary integer
  with its prefix, or an optionally signed decimal literal (\<^verbatim>\<open>Infinity\<close>, or digits with
  an optional fraction and an optional exponent). Anything else is NaN. The value of a
  literal is rounded to binary64.
\<close>

definition digit_of :: "int \<Rightarrow> char \<Rightarrow> int option" where
  "digit_of base c =
     (case map_of (zip ''0123456789abcdefABCDEF''
                       [0, 1, 2, 3, 4, 5, 6, 7, 8, 9, 10, 11, 12, 13, 14, 15, 10, 11, 12, 13, 14, 15]) c of
        None \<Rightarrow> None
      | Some d \<Rightarrow> if d < base then Some d else None)"

fun radix_val :: "int \<Rightarrow> int \<Rightarrow> string \<Rightarrow> int option" where
  "radix_val base acc [] = Some acc"
| "radix_val base acc (c # cs) =
     (case digit_of base c of
        None \<Rightarrow> None
      | Some d \<Rightarrow> radix_val base (acc * base + d) cs)"

definition is_digit :: "char \<Rightarrow> bool" where
  "is_digit c = (digit_of 10 c \<noteq> None)"

definition digits_val :: "int \<Rightarrow> string \<Rightarrow> int option" where
  "digits_val base ds = (if ds = [] then None else radix_val base 0 ds)"

definition NonDecimalIntegerLiteral :: "int \<Rightarrow> string \<Rightarrow> jsnum" where
  "NonDecimalIntegerLiteral base ds =
     (case digits_val base ds of None \<Rightarrow> NaN | Some n \<Rightarrow> binary64 (of_int n))"

definition ExponentPart :: "string \<Rightarrow> int option" where
  "ExponentPart s =
     (case s of
        [] \<Rightarrow> Some 0
      | c # t \<Rightarrow>
          if c = CHR ''e'' \<or> c = CHR ''E'' then
            (case t of
               [] \<Rightarrow> None
             | d # u \<Rightarrow>
                 if d = CHR ''+'' then digits_val 10 u
                 else if d = CHR ''-'' then map_option uminus (digits_val 10 u)
                 else digits_val 10 t)
          else None)"

definition scale10 :: "rat \<Rightarrow> int \<Rightarrow> rat" where
  "scale10 x e = (if 0 \<le> e then x * 10 ^ nat e else x / 10 ^ nat (- e))"

definition StrUnsignedDecimalLiteral :: "string \<Rightarrow> jsnum" where
  "StrUnsignedDecimalLiteral s =
     (if s = ''Infinity'' then PInf
      else
        let ip = takeWhile is_digit s;
            r = dropWhile is_digit s;
            dot = (r \<noteq> [] \<and> hd r = CHR ''.'');
            fp = (if dot then takeWhile is_digit (tl r) else []);
            rest = (if dot then dropWhile is_digit (tl r) else r)
        in if ip = [] \<and> fp = [] then NaN
           else
             (case ExponentPart rest of
                None \<Rightarrow> NaN
              | Some e \<Rightarrow>
                  binary64 (scale10 (of_int (the (radix_val 10 0 ip))
                                     + of_int (the (radix_val 10 0 fp)) / 10 ^ length fp) e)))"

definition StrDecimalLiteral :: "string \<Rightarrow> jsnum" where
  "StrDecimalLiteral s =
     (case s of
        [] \<Rightarrow> NaN
      | c # t \<Rightarrow>
          if c = CHR ''+'' then StrUnsignedDecimalLiteral t
          else if c = CHR ''-'' then js_neg (StrUnsignedDecimalLiteral t)
          else StrUnsignedDecimalLiteral s)"

definition Number :: "string \<Rightarrow> jsnum" where
  "Number s =
     (let t = str_trim s
      in if t = [] then Num 0
         else
           (case t of
              c # p # ds \<Rightarrow>
                if c = CHR ''0'' \<and> (p = CHR ''x'' \<or> p = CHR ''X'') then NonDecimalIntegerLiteral 16 ds
                else if c = CHR ''0'' \<and> (p = CHR ''o'' \<or> p = CHR ''O'') then NonDecimalIntegerLiteral 8 ds
                else if c = CHR ''0'' \<and> (p = CHR ''b'' \<or> p = CHR ''B'') then NonDecimalIntegerLiteral 2 ds
                else StrDecimalLiteral t
            | _ \<Rightarrow> StrDecimalLiteral t))"

section \<open>Keyset cursors\<close>

subsection \<open>Sort fields\<close>

text \<open>
  \<^verbatim>\<open>
  interface SortField { field: string; order: SortOrder; }

  function parseSortString(sortString: string): SortField[] {
    return sortString.split(',').map((part) => {
      const [field, order = 'ASC'] = part.trim().split(' ').filter(Boolean);
      return { field, order: order.toUpperCase() as SortOrder };
    });
  }
  \<close>
  Destructuring an array that is too short leaves \<^verbatim>\<open>field\<close> undefined, whatever its
  declared type, and gives \<^verbatim>\<open>order\<close> its default. The cast to \<^verbatim>\<open>SortOrder\<close> checks
  nothing, so \<^verbatim>\<open>order\<close> is any upper-cased string. No statement of the function
  throws.
\<close>

record SortField =
  field :: "string option"
  order :: string

definition parseSortPart :: "string \<Rightarrow> SortField" where
  "parseSortPart part =
     (let toks = filter (\<lambda>t. t \<noteq> []) (str_split CHR '' '' (str_trim part));
          field = (case toks of [] \<Rightarrow> None | f # _ \<Rightarrow> Some f);
          order = (case toks of _ # ord # _ \<Rightarrow> ord | _ \<Rightarrow> ''ASC'')
      in \<lparr> field = field, order = toUpperCase order \<rparr>)"

definition parseSortString :: "string \<Rightarrow> error + SortField list" where
  "parseSortString sortString = Inr (map parseSortPart (str_split CHR '','' sortString))"

subsection \<open>Cursors\<close>

text \<open>
  \<^verbatim>\<open>
  function parseCursor(fields: SortField[], cursor: string | number | bigint) {
    if (typeof cursor === 'number' || typeof cursor === 'bigint')
      return { [fields[0].field]: cursor };

    const values = cursor.split(':').map(Number);
    const result: Record<string, number> = {};
    for (let i = 0; i < fields.length; i++) {
      result[fields[i].field] = values[i];
    }
    return result;
  }
  \<close>
  The result is an object, modelled by the map of its own properties; what an object
  inherits from its prototype is outside the model. Reading
  \<^verbatim>\<open>fields[0].field\<close> of an empty array throws a TypeError; reading \<^verbatim>\<open>values[i]\<close>
  past the end gives \<^verbatim>\<open>undefined\<close>, which is then stored under the key. The
  parameter \<^verbatim>\<open>fields\<close> is written \<open>flds\<close>.
\<close>

datatype cursor = CStr string | CNum jsnum | CBig int

datatype jsval = VUndef | VNum jsnum | VBig int

text \<open>\<^verbatim>\<open>values[i]\<close> on an array of numbers.\<close>

definition values_at :: "jsnum list \<Rightarrow> nat \<Rightarrow> jsval" where
  "values_at values i = (if i < length values then VNum (values ! i) else VUndef)"

function parseCursor_loop ::
  "SortField list \<Rightarrow> jsnum list \<Rightarrow> nat \<Rightarrow> (string \<rightharpoonup> jsval) \<Rightarrow> (string \<rightharpoonup> jsval)" where
  "parseCursor_loop flds values i result =
     (if i < length flds
      then parseCursor_loop flds values (i + 1)
             (result(ToString (field (flds ! i)) \<mapsto> values_at values i))
      else result)"
  by pat_completeness auto
termination
  by (relation "measure (\<lambda>(flds, values, i, result). length flds - i)") auto

declare parseCursor_loop.simps [simp del]

fun parseCursor :: "SortField list \<Rightarrow> cursor \<Rightarrow> error + (string \<rightharpoonup> jsval)" where
  "parseCursor flds (CNum n) =
     (case flds of
        [] \<Rightarrow> Inl TypeError
      | f # _ \<Rightarrow> Inr [ToString (field f) \<mapsto> VNum n])"
| "parseCursor flds (CBig b) =
     (case flds of
        [] \<Rightarrow> Inl TypeError
      | f # _ \<Rightarrow> Inr [ToString (field f) \<mapsto> VBig b])"
| "parseCursor flds (CStr s) =
     (let values = map Number (str_split CHR '':'' s)
      in Inr (parseCursor_loop flds values 0 Map.empty))"

subsection \<open>SQL fragments\<close>

text \<open>
  A \<^verbatim>\<open>Prisma.Sql\<close> value is a query text with bound parameters. It is modelled by the
  sequence of its pieces: raw text and parameters. \<^verbatim>\<open>Prisma.raw\<close> makes one piece of
  text, the template tag \<^verbatim>\<open>Prisma.sql\<close> splices its pieces in order, a plain value in a
  template becomes a parameter, and \<^verbatim>\<open>Prisma.join\<close> puts a separator between
  fragments and throws a TypeError on an empty array.
\<close>

datatype frag = Raw string | Param jsval

type_synonym sql = "frag list"

definition Prisma_raw :: "string \<Rightarrow> sql" where
  "Prisma_raw s = [Raw s]"

fun join_sql :: "string \<Rightarrow> sql list \<Rightarrow> sql" where
  "join_sql sep [] = []"
| "join_sql sep [q] = q"
| "join_sql sep (q # r # rs) = q @ [Raw sep] @ join_sql sep (r # rs)"

definition Prisma_join :: "sql list \<Rightarrow> string \<Rightarrow> error + sql" where
  "Prisma_join parts sep = (if parts = [] then Inl TypeError else Inr (join_sql sep parts))"



subsection \<open>getCursor\<close>

text \<open>
  \<^verbatim>\<open>
  export function getCursor(sortString: string, cursor: string | number | bigint | undefined) {
    const sortFields = parseSortString(sortString);
    let where: Prisma.Sql | undefined;
    if (cursor) {
      const cursors = parseCursor(sortFields, cursor);
      const conditions: Prisma.Sql[] = [];

      for (let i = 0; i < sortFields.length; i++) {
        const conditionParts: Prisma.Sql[] = [];
        for (let j = 0; j <= i; j++) {
          const { field, order } = sortFields[j];
          let operator = j < i ? '=' : order === 'DESC' ? '<' : '>';
          if (j < i) operator = '=';

          conditionParts.push(
            Prisma.sql`${Prisma.raw(field)} ${Prisma.raw(operator)} ${cursors[field]}`
          );
        }
        conditions.push(Prisma.sql`(${Prisma.join(conditionParts, ' AND ')})`);
      }

      where = Prisma.sql`(${Prisma.join(conditions, ' OR ')})`;
    }

    const sortProps = sortFields.map((x) => x.field);
    const prop =
      sortFields.length === 1 ? sortFields[0].field : `CONCAT(${sortProps.join(`, ':', `)})`;
    return { where, prop };
  }
  \<close>
  The two loops are the functions \<open>conditionParts_loop\<close> (over \<open>j\<close>) and
  \<open>conditions_loop\<close> (over \<open>i\<close>); each carries the array it pushes to. Reading
  \<^verbatim>\<open>sortFields[j]\<close> past the end and destructuring it would throw a TypeError. The
  locals \<^verbatim>\<open>field\<close> and \<^verbatim>\<open>order\<close> are written \<open>fld\<close> and \<open>ord\<close>, and the fields
  \<^verbatim>\<open>where\<close> and \<^verbatim>\<open>prop\<close> of the result \<open>whereSql\<close> and \<open>propSql\<close>. A field name
  that is \<^verbatim>\<open>undefined\<close> reads \<^verbatim>\<open>undefined\<close> in the text that \<^verbatim>\<open>Prisma.raw\<close> and the
  template make of it.
\<close>

text \<open>Truthiness of a cursor: the empty string, the numbers 0 and NaN and the bigint 0 are falsy.\<close>

fun cursor_truthy :: "cursor \<Rightarrow> bool" where
  "cursor_truthy (CStr s) = (s \<noteq> [])"
| "cursor_truthy (CNum n) = truthy n"
| "cursor_truthy (CBig b) = (b \<noteq> 0)"

text \<open>\<^verbatim>\<open>cursors[field]\<close>: a key that is not there reads \<^verbatim>\<open>undefined\<close>.\<close>

definition js_get :: "(string \<rightharpoonup> jsval) \<Rightarrow> string \<Rightarrow> jsval" where
  "js_get obj k = (case obj k of None \<Rightarrow> VUndef | Some v \<Rightarrow> v)"

function conditionParts_loop ::
  "SortField list \<Rightarrow> (string \<rightharpoonup> jsval) \<Rightarrow> nat \<Rightarrow> nat \<Rightarrow> sql list \<Rightarrow> error + sql list" where
  "conditionParts_loop sortFields cursors i j conditionParts =
     (if j \<le> i then
        (if j < length sortFields then
           (let fld = field (sortFields ! j);
                ord = order (sortFields ! j);
                operator = (if j < i then ''='' else if ord = ''DESC'' then ''<'' else ''>'');
                operator = (if j < i then ''='' else operator)
            in conditionParts_loop sortFields cursors i (j + 1)
                 (conditionParts @
                  [Prisma_raw (ToString fld) @ [Raw '' ''] @ Prisma_raw operator @ [Raw '' '']
                   @ [Param (js_get cursors (ToString fld))]]))
         else Inl TypeError)
      else Inr conditionParts)"
  by pat_completeness auto
termination
  by (relation "measure (\<lambda>(sortFields, cursors, i, j, conditionParts). Suc i - j)") auto

function conditions_loop ::
  "SortField list \<Rightarrow> (string \<rightharpoonup> jsval) \<Rightarrow> nat \<Rightarrow> sql list \<Rightarrow> error + sql list" where
  "conditions_loop sortFields cursors i conditions =
     (if i < length sortFields then
        (case conditionParts_loop sortFields cursors i 0 [] of
           Inl e \<Rightarrow> Inl e
         | Inr conditionParts \<Rightarrow>
             (case Prisma_join conditionParts '' AND '' of
                Inl e \<Rightarrow> Inl e
              | Inr joined \<Rightarrow>
                  conditions_loop sortFields cursors (i + 1)
                    (conditions @ [[Raw ''(''] @ joined @ [Raw '')'']])))
      else Inr conditions)"
  by pat_completeness auto
termination
  by (relation "measure (\<lambda>(sortFields, cursors, i, conditions). length sortFields - i)") auto

declare conditionParts_loop.simps [simp del] conditions_loop.simps [simp del]

text \<open>The statements guarded by \<^verbatim>\<open>if (cursor)\<close>, from the parsed cursor to \<^verbatim>\<open>where\<close>.\<close>

definition getCursor_where :: "SortField list \<Rightarrow> (string \<rightharpoonup> jsval) \<Rightarrow> error + sql" where
  "getCursor_where sortFields cursors =
     (case conditions_loop sortFields cursors 0 [] of
        Inl e \<Rightarrow> Inl e
      | Inr conditions \<Rightarrow>
          (case Prisma_join conditions '' OR '' of
             Inl e \<Rightarrow> Inl e
           | Inr joined \<Rightarrow> Inr ([Raw ''(''] @ joined @ [Raw '')''])))"

record cursor_result =
  whereSql :: "sql option"
  propSql :: "string option"

definition getCursor :: "string \<Rightarrow> cursor option \<Rightarrow> error + cursor_result" where
  "getCursor sortString cursor =
     (case parseSortString sortString of
        Inl e \<Rightarrow> Inl e
      | Inr sortFields \<Rightarrow>
          (case (case cursor of
                   None \<Rightarrow> Inr None
                 | Some c \<Rightarrow>
                     if cursor_truthy c then
                       (case parseCursor sortFields c of
                          Inl e \<Rightarrow> Inl e
                        | Inr cursors \<Rightarrow> map_sum id Some (getCursor_where sortFields cursors))
                     else Inr None) of
             Inl e \<Rightarrow> Inl e
           | Inr wh \<Rightarrow>
               (let sortProps = map field sortFields;
                    prop = (if length sortFields = 1
                            then (case sortFields of [] \<Rightarrow> None | f # _ \<Rightarrow> field f)
                            else Some (''CONCAT('' @ Array_join '', ':', '' sortProps @ '')''))
                in Inr \<lparr> whereSql = wh, propSql = prop \<rparr>)))"

section \<open>The specification's side\<close>

subsection \<open>Condition trees\<close>

text \<open>
  The specification describes the predicate as a condition tree: comparisons of a field
  with a value, joined by AND inside a clause and by OR across clauses. The definitions
  of this subsection follow the specification's words, to be compared with what
  \<open>getCursor\<close> builds.
\<close>

datatype cmp_op = Eq | Lt | Gt

datatype cond = Cmp string cmp_op jsval | And "cond list" | Or "cond list"










subsection \<open>Positions in a list of sort fields\<close>

text \<open>
  Index \<open>i\<close> is the last one of \<open>flds\<close> with its field name. When the field names
  are distinct, every index is.
\<close>

definition last_with_name :: "SortField list \<Rightarrow> nat \<Rightarrow> bool" where
  "last_with_name flds i =
     (ToString (field (flds ! i)) \<notin> set (map (\<lambda>f. ToString (field f)) (drop (Suc i) flds)))"

subsection \<open>The sort-key expression\<close>

text \<open>
  The specification describes the sort-key expression of several fields as the field
  names joined in declared order. The definitions of this subsection follow those
  words, to be compared with what \<open>getCursor\<close> returns: the names joined in their
  order, with the separator between each name and the next.
\<close>

definition joined_with :: "string \<Rightarrow> string list \<Rightarrow> string" where
  "joined_with sep names =
     (case names of [] \<Rightarrow> [] | n # ns \<Rightarrow> n @ concat (map (\<lambda>m. sep @ m) ns))"

text \<open>
  The field name of a clause is the clause without the white space around it, up to
  its first space; a clause that is empty after trimming has the empty name. The field
  names of a sort string are those of its comma-separated clauses, in their order.
\<close>

definition clause_name :: "string \<Rightarrow> string" where
  "clause_name part = takeWhile (\<lambda>c. c \<noteq> CHR '' '') (str_trim part)"

definition clause_names :: "string \<Rightarrow> string list" where
  "clause_names s = map clause_name (str_split CHR '','' s)"

subsection \<open>The value of the sort key\<close>

text \<open>Decimal notation of an integer, as a database or the host language prints it.\<close>

definition digit_char :: "int \<Rightarrow> char" where
  "digit_char d = ''0123456789'' ! nat d"

function decimal_pos :: "int \<Rightarrow> string" where
  "decimal_pos n =
     (if n < 10 then [digit_char n]
      else decimal_pos (n div 10) @ [digit_char (n mod 10)])"
  by pat_completeness auto
termination
  by (relation "measure nat") auto

declare decimal_pos.simps [simp del]

definition decimal_int :: "int \<Rightarrow> string" where
  "decimal_int i = (if i < 0 then CHR ''-'' # decimal_pos (- i) else decimal_pos i)"

fun join_str :: "string \<Rightarrow> string list \<Rightarrow> string" where
  "join_str sep [] = []"
| "join_str sep [x] = x"
| "join_str sep (x # y # ys) = x @ sep @ join_str sep (y # ys)"

text \<open>
  Modelled from the spec: the value that the sort-key expression \<^verbatim>\<open>prop\<close> takes on a
  result row, which the caller hands back as the next cursor. The database computes it
  in the caller's query, and no function of the source does: the single value for one
  field, or the values joined with \<^verbatim>\<open>:\<close> in declared field order for several fields. A
  row gives a value for each column name; \<open>num\<close> is the number that a value is and
  \<open>txt\<close> the text that the database prints for it.
\<close>

definition sortKeyValue ::
  "('v \<Rightarrow> jsnum) \<Rightarrow> ('v \<Rightarrow> string) \<Rightarrow> SortField list \<Rightarrow> (string \<Rightarrow> 'v) \<Rightarrow> cursor" where
  "sortKeyValue num txt flds row =
     (case flds of
        [f] \<Rightarrow> CNum (num (row (ToString (field f))))
      | _ \<Rightarrow> CStr (join_str '':'' (map (\<lambda>f. txt (row (ToString (field f)))) flds)))"

text \<open>The mapping a row induces on the sort fields.\<close>

definition row_mapping ::
  "('v \<Rightarrow> jsnum) \<Rightarrow> SortField list \<Rightarrow> (string \<Rightarrow> 'v) \<Rightarrow> (string \<rightharpoonup> jsval)" where
  "row_mapping num flds row =
     (\<lambda>k. if k \<in> set (map (\<lambda>f. ToString (field f)) flds)
          then Some (VNum (num (row k))) else None)"

text \<open>An integer column: the number it is, when binary64 has it.\<close>

definition int_num :: "int \<Rightarrow> jsnum" where
  "int_num i = Num (of_int i)"

section \<open>Rounding to binary64\<close>

lemma bit_length_pos: "0 < n \<Longrightarrow> bit_length n = 1 + bit_length (n div 2)"
  by (subst bit_length.simps) simp

lemma bit_length_nonpos: "n \<le> 0 \<Longrightarrow> bit_length n = 0"
  by (subst bit_length.simps) simp

lemma bit_length_nonneg: "0 \<le> bit_length n"
proof (induction n rule: bit_length.induct)
  case (1 n)
  then show ?case
    by (cases "n \<le> 0") (simp_all add: bit_length_nonpos bit_length_pos)
qed

lemma bit_length_bounds:
  "0 < n \<Longrightarrow> 2 ^ nat (bit_length n - 1) \<le> n \<and> n < 2 ^ nat (bit_length n)"
proof (induction n rule: bit_length.induct)
  case (1 n)
  show ?case
  proof (cases "n = 1")
    case True
    then show ?thesis
      by (simp add: bit_length_pos bit_length_nonpos)
  next
    case False
    then have h: "0 < n div 2" using "1.prems" by simp
    then have IH: "2 ^ nat (bit_length (n div 2) - 1) \<le> n div 2"
        "n div 2 < 2 ^ nat (bit_length (n div 2))"
      using "1.IH" "1.prems" by simp_all
    have bl: "1 \<le> bit_length (n div 2)"
      using h bit_length_nonneg [of "n div 2 div 2"] by (simp add: bit_length_pos [of "n div 2"])
    have e1: "nat (bit_length n - 1) = Suc (nat (bit_length (n div 2) - 1))"
      using bl "1.prems" by (simp add: bit_length_pos [of n] Suc_nat_eq_nat_zadd1)
    have e2: "nat (bit_length n) = Suc (nat (bit_length (n div 2)))"
      using bl "1.prems" by (simp add: bit_length_pos [of n] Suc_nat_eq_nat_zadd1)
    have "2 * 2 ^ nat (bit_length (n div 2) - 1) \<le> n"
      using IH(1) by linarith
    moreover have "n < 2 * 2 ^ nat (bit_length (n div 2))"
      using IH(2) by linarith
    ultimately show ?thesis by (simp add: e1 e2)
  qed
qed

lemma pow2_pos: "0 < pow2 e"
  by (simp add: pow2_def)

lemma pow2_nat: "pow2 (int k) = 2 ^ k"
  by (simp add: pow2_def)

lemma pow2_neg: "pow2 (- int k) = 1 / 2 ^ k"
  by (auto simp: pow2_def)

lemma pow2_Suc: "pow2 (e + 1) = 2 * pow2 e"
proof (cases "0 \<le> e")
  case True
  then show ?thesis by (simp add: pow2_def nat_add_distrib)
next
  case False
  have s: "nat (- e) = Suc (nat (- e - 1))" using False by simp
  show ?thesis
  proof (cases "e = - 1")
    case True
    then show ?thesis by (simp add: pow2_def)
  next
    case False
    then have "\<not> 0 \<le> e + 1" using \<open>\<not> 0 \<le> e\<close> by simp
    moreover have "- (e + 1) = - e - 1" by simp
    ultimately show ?thesis
      using \<open>\<not> 0 \<le> e\<close> by (simp add: pow2_def s)
  qed
qed

lemma pow2_mono: "a \<le> b \<Longrightarrow> pow2 a \<le> pow2 b"
proof -
  assume "a \<le> b"
  then obtain k where k: "b = a + int k"
    by (metis nat_0_le diff_ge_0_iff_ge add_diff_cancel_left' add.commute diff_add_cancel)
  have "pow2 a \<le> pow2 (a + int k)"
  proof (induction k)
    case 0
    then show ?case by simp
  next
    case (Suc k)
    have "a + int (Suc k) = a + int k + 1" by simp
    then have "pow2 (a + int (Suc k)) = 2 * pow2 (a + int k)"
      by (simp only: pow2_Suc)
    then show ?case using Suc pow2_pos [of "a + int k"] by simp
  qed
  then show ?thesis by (simp add: k)
qed

lemma pow2_less_imp: "pow2 a < pow2 b \<Longrightarrow> a < b"
  using pow2_mono [of b a] by (cases "a < b") auto

lemma expo_bounds:
  assumes "0 < x"
  shows "pow2 (expo x) \<le> x \<and> x < pow2 (expo x + 1)"
proof (cases "1 \<le> x")
  case True
  let ?n = "\<lfloor>x\<rfloor>"
  have n: "0 < ?n" using True by simp
  have b: "2 ^ nat (bit_length ?n - 1) \<le> ?n" "?n < 2 ^ nat (bit_length ?n)"
    using bit_length_bounds [OF n] by simp_all
  have bl: "1 \<le> bit_length ?n"
    using n bit_length_nonneg [of "?n div 2"] by (simp add: bit_length_pos)
  have e: "expo x = bit_length ?n - 1" using True by (simp add: expo_def)
  have p1: "pow2 (expo x) = of_int (2 ^ nat (bit_length ?n - 1))"
    using bl by (simp add: e pow2_def)
  have p2: "pow2 (expo x + 1) = of_int (2 ^ nat (bit_length ?n))"
    using bl by (simp add: e pow2_def)
  have "of_int (2 ^ nat (bit_length ?n - 1)) \<le> (of_int ?n :: rat)"
    using b(1) by (simp only: of_int_le_iff)
  also have "\<dots> \<le> x" by simp
  finally have lo: "pow2 (expo x) \<le> x" by (simp only: p1)
  have "?n + 1 \<le> 2 ^ nat (bit_length ?n)" using b(2) by simp
  then have "(of_int (?n + 1) :: rat) \<le> of_int (2 ^ nat (bit_length ?n))"
    by (simp only: of_int_le_iff)
  moreover have "x < of_int (?n + 1)" by linarith
  ultimately have hi: "x < pow2 (expo x + 1)" by (simp only: p2)
  from lo hi show ?thesis by simp
next
  case False
  let ?c = "\<lceil>1 / x\<rceil>"
  have y: "1 < 1 / x" using False assms by simp
  then have c2: "2 \<le> ?c" by (simp add: le_ceiling_iff)
  then have n: "0 < ?c - 1" by simp
  let ?k = "bit_length (?c - 1)"
  have b: "2 ^ nat (?k - 1) \<le> ?c - 1" "?c - 1 < 2 ^ nat ?k"
    using bit_length_bounds [OF n] by simp_all
  have bl: "1 \<le> ?k"
    using n bit_length_nonneg [of "(?c - 1) div 2"] by (simp add: bit_length_pos)
  have e: "expo x = - ?k" using False by (simp add: expo_def)
  have p1: "pow2 (expo x) = 1 / of_int (2 ^ nat ?k)"
    using bl by (simp add: e pow2_def)
  have p2: "pow2 (expo x + 1) = 1 / of_int (2 ^ nat (?k - 1))"
  proof (cases "?k = 1")
    case True
    then show ?thesis by (simp add: e pow2_def)
  next
    case False
    then have "\<not> 0 \<le> - ?k + 1" using bl by simp
    moreover have "- (- ?k + 1) = ?k - 1" by simp
    ultimately show ?thesis by (simp add: e pow2_def)
  qed
  have "?c \<le> 2 ^ nat ?k" using b(2) by simp
  then have "(of_int ?c :: rat) \<le> of_int (2 ^ nat ?k)" by (simp only: of_int_le_iff)
  moreover have "1 / x \<le> of_int ?c" by simp
  ultimately have "1 / x \<le> of_int (2 ^ nat ?k)" by linarith
  then have lo: "pow2 (expo x) \<le> x"
    unfolding p1 using assms by (simp add: field_simps)
  have "(of_int (2 ^ nat (?k - 1)) :: rat) \<le> of_int (?c - 1)"
    using b(1) by (simp only: of_int_le_iff)
  moreover have "of_int (?c - 1) < 1 / x" by linarith
  ultimately have "(of_int (2 ^ nat (?k - 1)) :: rat) < 1 / x" by linarith
  then have hi: "x < pow2 (expo x + 1)"
    unfolding p2 using assms by (simp add: field_simps)
  from lo hi show ?thesis by simp
qed

lemma expo_le: "0 < x \<Longrightarrow> x < pow2 (k + 1) \<Longrightarrow> expo x \<le> k"
proof -
  assume "0 < x" "x < pow2 (k + 1)"
  then have "pow2 (expo x) < pow2 (k + 1)"
    using expo_bounds [of x] by linarith
  then have "expo x < k + 1" by (rule pow2_less_imp)
  then show ?thesis by simp
qed

lemma round_even_int: "round_even (of_int k) = k"
  by (simp add: round_even_def)

lemma round_even_le: "y \<le> of_int m \<Longrightarrow> round_even y \<le> m"
proof -
  assume a: "y \<le> of_int m"
  have f: "\<lfloor>y\<rfloor> \<le> m" using a by (simp add: floor_le_iff)
  show ?thesis
  proof (cases "y = of_int m")
    case True
    then show ?thesis by (simp add: round_even_int)
  next
    case False
    then have "y < of_int m" using a by simp
    then have "\<lfloor>y\<rfloor> < m" by (simp add: floor_less_iff)
    then have "\<lfloor>y\<rfloor> + 1 \<le> m" by simp
    then show ?thesis using f by (auto simp: round_even_def Let_def)
  qed
qed

lemma round_even_ge: "y - 1 / 2 \<le> of_int (round_even y)"
proof -
  have "of_int \<lfloor>y\<rfloor> \<le> y" "y < of_int \<lfloor>y\<rfloor> + 1" by linarith+
  then show ?thesis
    by (auto simp: round_even_def Let_def)
qed

lemma pow2_54: "pow2 54 = 2 ^ 54"
  by (simp add: pow2_def)

lemma binary64_exact:
  assumes "0 < x" "x / pow2 (quantum x) = of_int k" "x \<le> 2 ^ 53"
  shows "binary64 x = Num x"
proof -
  have g: "pow2 (quantum x) \<noteq> 0" using pow2_pos [of "quantum x"] by simp
  have r: "of_int (round_even (x / pow2 (quantum x))) * pow2 (quantum x) = x"
    using g by (simp add: assms(2) round_even_int) (metis assms(2) g nonzero_divide_eq_eq)
  have "x < pow2 (53 + 1)" using assms(3) by (simp add: pow2_54)
  then have "expo x \<le> 53" using assms(1) by (rule expo_le [rotated]) 
  then have "\<not> 1024 \<le> expo \<bar>x\<bar>" using assms(1) by simp
  then show ?thesis
    using assms(1) by (simp add: binary64_def Let_def r)
qed

lemma binary64_int:
  assumes "0 < i" "i \<le> 2 ^ 53"
  shows "binary64 (of_int i) = Num (of_int i)"
proof -
  let ?x = "of_int i :: rat"
  have x1: "1 \<le> ?x" using assms(1) by simp
  have xpos: "0 < ?x" using assms(1) by simp
  have xle: "?x \<le> 2 ^ 53"
  proof -
    have "?x \<le> of_int (2 ^ 53)" using assms(2) by (simp only: of_int_le_iff)
    then show ?thesis by simp
  qed
  have b: "pow2 (expo ?x) \<le> ?x" "?x < pow2 (expo ?x + 1)"
    using expo_bounds [OF xpos] by simp_all
  have "pow2 0 < pow2 (expo ?x + 1)" using x1 b(2) by (simp add: pow2_def)
  then have e0: "0 \<le> expo ?x" using pow2_less_imp [of 0 "expo ?x + 1"] by simp
  have "?x < pow2 (53 + 1)" using xle by (simp add: pow2_54)
  then have e53: "expo ?x \<le> 53" using xpos by (rule expo_le [rotated])
  have q: "quantum ?x = expo ?x - 52" using e0 xpos by (simp add: quantum_def)
  have "\<exists>k. ?x / pow2 (quantum ?x) = of_int k"
  proof (cases "expo ?x \<le> 52")
    case True
    then have "pow2 (expo ?x - 52) = 1 / 2 ^ nat (52 - expo ?x)"
      using pow2_neg [of "nat (52 - expo ?x)"] by simp
    then have "?x / pow2 (quantum ?x) = of_int (i * 2 ^ nat (52 - expo ?x))"
      by (simp add: q)
    then show ?thesis by blast
  next
    case False
    then have e: "expo ?x = 53" using e53 by simp
    then have "2 ^ 53 \<le> ?x" using b(1) by (simp add: pow2_def)
    then have x53: "?x = 2 ^ 53" using xle by simp
    have "pow2 (quantum ?x) = 2" unfolding q e by (simp add: pow2_def)
    then have "?x / pow2 (quantum ?x) = 2 ^ 53 / 2" using x53 by (simp only:)
    also have "\<dots> = of_int (2 ^ 52)" by simp
    finally show ?thesis by blast
  qed
  then obtain k where k: "?x / pow2 (quantum ?x) = of_int k" by blast
  show ?thesis using xpos k xle by (rule binary64_exact)
qed

lemma pow2_add_nat: "pow2 (e + int k) = pow2 e * 2 ^ k"
proof (induction k)
  case 0
  then show ?case by simp
next
  case (Suc k)
  have "e + int (Suc k) = e + int k + 1" by simp
  then have "pow2 (e + int (Suc k)) = 2 * pow2 (e + int k)" by (simp only: pow2_Suc)
  then show ?case using Suc by simp
qed

lemma ceil_div_binary64:
  fixes a b :: int
  assumes "0 < a" "a < 2 ^ 53" "0 < b" "b < 2 ^ 53"
  shows "Math_ceil (js_div (Num (of_int a)) (Num (of_int b)))
           = Num (of_int \<lceil>of_int a / of_int b :: rat\<rceil>)"
proof -
  let ?x = "of_int a / of_int b :: rat"
  let ?n = "\<lceil>?x\<rceil>"
  let ?q = "quantum ?x"
  let ?g = "pow2 ?q"
  let ?r = "of_int (round_even (?x / ?g)) * ?g"
  have bpos: "(0::rat) < of_int b" and apos: "(0::rat) < of_int a" using assms by simp_all
  have xpos: "0 < ?x" using apos bpos by simp
  have b1: "(1::rat) \<le> of_int b" using assms(3) by simp
  have xa: "?x \<le> of_int a"
    using apos b1 by (simp add: field_simps)
  have a53: "(of_int a :: rat) < 2 ^ 53"
  proof -
    have "(of_int a :: rat) < of_int (2 ^ 53)" using assms(2) by (simp only: of_int_less_iff)
    then show ?thesis by simp
  qed
  have b53: "(of_int b :: rat) < 2 ^ 53"
  proof -
    have "(of_int b :: rat) < of_int (2 ^ 53)" using assms(4) by (simp only: of_int_less_iff)
    then show ?thesis by simp
  qed
  have x53: "?x < 2 ^ 53" using xa a53 by linarith
  have gpos: "0 < ?g" by (rule pow2_pos)
  have eb: "pow2 (expo ?x) \<le> ?x" using expo_bounds [OF xpos] by simp
  have "?x < pow2 (52 + 1)" using x53 by (simp add: pow2_def)
  then have e52: "expo ?x \<le> 52" using xpos by (rule expo_le [rotated])
  have "\<bar>?x\<bar> = ?x" using xpos by (simp only: abs_of_pos)
  then have qdef: "?q = max (expo ?x - 52) (- 1074)" by (simp only: quantum_def)
  have q0: "?q \<le> 0" using e52 by (simp add: qdef)
  have ginv: "?g = 1 / 2 ^ nat (- ?q)"
    using pow2_neg [of "nat (- ?q)"] q0 by simp
  \<comment> \<open>the rounded value does not exceed the ceiling\<close>
  have n1: "1 \<le> ?n" using xpos by (simp add: le_ceiling_iff)
  have "?x / ?g \<le> of_int (?n * 2 ^ nat (- ?q))"
  proof -
    have "?x \<le> of_int ?n" by simp
    then have "?x * 2 ^ nat (- ?q) \<le> of_int ?n * 2 ^ nat (- ?q)"
      by (simp only: mult_le_cancel_right) simp
    then show ?thesis by (simp add: ginv)
  qed
  then have "round_even (?x / ?g) \<le> ?n * 2 ^ nat (- ?q)" by (rule round_even_le)
  then have "(of_int (round_even (?x / ?g)) :: rat) \<le> of_int (?n * 2 ^ nat (- ?q))"
    by (simp only: of_int_le_iff)
  then have "?r \<le> of_int (?n * 2 ^ nat (- ?q)) * ?g"
    using gpos by (simp only: mult_le_cancel_right) simp
  also have "\<dots> = of_int ?n" by (simp add: ginv)
  finally have upper: "?r \<le> of_int ?n" .
  \<comment> \<open>the last place is below \<open>2 / b\<close>\<close>
  have gb: "?g * of_int b < 2"
  proof (cases "- 1074 \<le> expo ?x - 52")
    case True
    then have q: "?q = expo ?x - 52" by (simp add: qdef)
    have "pow2 (expo ?x) = pow2 (expo ?x - 52 + int 52)" by simp
    also have "\<dots> = pow2 (expo ?x - 52) * 2 ^ 52" by (rule pow2_add_nat)
    finally have "?g * 2 ^ 52 \<le> ?x" using eb by (simp add: q)
    then have "?g * 2 ^ 52 * of_int b \<le> ?x * of_int b"
      using bpos by (simp only: mult_le_cancel_right) simp
    also have "\<dots> = of_int a" using bpos by simp
    finally have le: "?g * 2 ^ 52 * of_int b \<le> of_int a" .
    have eq: "?g * 2 ^ 52 * of_int b = 4503599627370496 * (?g * of_int b)" by simp
    have a53': "(of_int a :: rat) < 9007199254740992" using a53 by simp
    from le a53' show ?thesis unfolding eq by linarith
  next
    case False
    then have q: "?q = - 1074" by (simp add: qdef)
    have g: "?g = 1 / 2 ^ 1074" unfolding q by (simp add: pow2_def)
    have "?g * of_int b < ?g * 2 ^ 53"
      using b53 gpos by (simp only: mult_less_cancel_left_pos)
    also have "\<dots> < 2" unfolding g by simp
    finally show ?thesis .
  qed
  \<comment> \<open>the quotient is at least \<open>1 / b\<close> above the integer below the ceiling\<close>
  have "of_int (?n - 1) < ?x" by linarith
  then have "of_int (?n - 1) * of_int b < (of_int a :: rat)"
    using bpos by (simp add: pos_less_divide_eq)
  then have "(?n - 1) * b < a"
    by (metis of_int_less_iff of_int_mult)
  then have "(?n - 1) * b + 1 \<le> a" by simp
  then have "(of_int ((?n - 1) * b + 1) :: rat) \<le> of_int a" by (simp only: of_int_le_iff)
  then have "(of_int (?n - 1) * of_int b + 1) / of_int b \<le> ?x"
    using bpos by (simp add: divide_le_cancel)
  then have gap: "of_int (?n - 1) + 1 / of_int b \<le> ?x"
    using bpos by (simp add: add_divide_distrib)
  have "?g / 2 < 1 / of_int b"
    using gb bpos by (simp add: field_simps)
  moreover have "?x / ?g - 1 / 2 \<le> of_int (round_even (?x / ?g))" by (rule round_even_ge)
  then have "(?x / ?g - 1 / 2) * ?g \<le> ?r"
    using gpos by (simp only: mult_le_cancel_right) simp
  then have "?x - ?g / 2 \<le> ?r" using gpos by (simp add: field_simps)
  ultimately have lower: "of_int (?n - 1) < ?r" using gap by linarith
  have rpos: "0 < ?r" using lower n1 by (smt (verit) of_int_0_le_iff diff_ge_0_iff_ge order_le_less_trans)
  \<comment> \<open>no overflow\<close>
  have "of_int ?n \<le> (of_int a :: rat)"
    using xa by (simp add: ceiling_le_iff)
  then have "?r < pow2 (53 + 1)" using upper a53 by (simp add: pow2_54)
  then have "expo ?r \<le> 53" using rpos by (rule expo_le [rotated])
  then have nov: "\<not> 1024 \<le> expo \<bar>?r\<bar>" using rpos by simp
  have x0: "?x \<noteq> 0" using xpos by (metis less_irrefl)
  have b64: "binary64 ?x = Num ?r"
    using x0 nov by (simp add: binary64_def Let_def del: of_int_diff)
  have "\<lceil>?r\<rceil> = ?n"
    using lower upper by (intro ceiling_unique) simp_all
  then have "Math_ceil (Num ?r) = Num (of_int ?n)" by simp
  moreover have "js_div (Num (of_int a)) (Num (of_int b)) = binary64 ?x"
    using assms(3) by simp
  ultimately show ?thesis by (simp only: b64)
qed

section \<open>Properties of offset pagination\<close>

lemma truthy_iff: "truthy p \<longleftrightarrow> p \<noteq> Num 0 \<and> p \<noteq> NaN"
  by (cases p) auto

lemma js_gt_zero_truthy: "js_gt x (Num 0) \<Longrightarrow> truthy x"
  by (cases x) auto

text \<open>
  C8, as the code has it. \<open>getPagination\<close> returns \<open>take = limit\<close> when \<open>limit > 0\<close> and
  no \<open>take\<close> otherwise. It returns \<open>skip = (page - 1) * limit\<close> when \<open>limit > 0\<close> and
  \<open>page\<close> is a number other than 0 and NaN, of either sign, and no \<open>skip\<close> when
  \<open>page\<close> is missing, 0 or NaN or \<open>limit\<close> is not above 0. \<open>getPagination(20, 3)\<close> is
  \<open>{take: 20, skip: 40}\<close> and \<open>getPagination(0, 3)\<close> has neither.
\<close>

theorem getPagination_take_skip:
  "take_opt (getPagination limit page) = (if js_gt limit (Num 0) then Some limit else None)
   \<and> skip_opt (getPagination limit page) =
       (case page of
          None \<Rightarrow> None
        | Some p \<Rightarrow>
            if js_gt limit (Num 0) \<and> p \<noteq> Num 0 \<and> p \<noteq> NaN
            then Some (js_mul (js_sub p (Num 1)) limit) else None)
   \<and> getPagination (Num 20) (Some (Num 3)) = \<lparr> take_opt = Some (Num 20), skip_opt = Some (Num 40) \<rparr>
   \<and> getPagination (Num 0) (Some (Num 3)) = \<lparr> take_opt = None, skip_opt = None \<rparr>"
proof -
  have a: "take_opt (getPagination limit page) = (if js_gt limit (Num 0) then Some limit else None)"
    by (simp add: getPagination_def Let_def)
  have b: "skip_opt (getPagination limit page) =
       (case page of
          None \<Rightarrow> None
        | Some p \<Rightarrow>
            if js_gt limit (Num 0) \<and> p \<noteq> Num 0 \<and> p \<noteq> NaN
            then Some (js_mul (js_sub p (Num 1)) limit) else None)"
    by (auto simp: getPagination_def Let_def truthy_iff [symmetric] js_gt_zero_truthy
             split: option.splits)
  have c: "getPagination (Num 20) (Some (Num 3)) = \<lparr> take_opt = Some (Num 20), skip_opt = Some (Num 40) \<rparr>"
    by code_simp
  have d: "getPagination (Num 0) (Some (Num 3)) = \<lparr> take_opt = None, skip_opt = None \<rparr>"
    by code_simp
  from a b c d show ?thesis by blast
qed

theorem getPagination_take_skip_witness:
  "js_gt (Num 20) (Num 0) \<and> skip_opt (getPagination (Num 20) (Some (Num 5))) = Some (Num 80)"
proof -
  have "js_mul (js_sub (Num 5) (Num 1)) (Num 20) = Num 80" by code_simp
  then show ?thesis
    using getPagination_take_skip [of "Num 20" "Some (Num 5)"] by simp
qed

text \<open>
  C8 as stated fails for a negative page: \<open>- 1\<close> is not positive, yet
  \<open>getPagination(20, - 1)\<close> has a \<open>skip\<close>, namely \<open>- 40\<close>.
\<close>

theorem getPagination_negative_page_counterexample:
  "\<not> js_gt (Num (- 1)) (Num 0)
   \<and> skip_opt (getPagination (Num 20) (Some (Num (- 1)))) = Some (Num (- 40))"
  by code_simp

text \<open>
  C7. For all inputs of \<open>getPagingData\<close>: \<open>totalItems\<close> is the count, or 0 without one;
  \<open>pageSize\<close> is the limit, or \<open>totalItems\<close> without one; and \<open>totalPages\<close> is
  \<^verbatim>\<open>Math.ceil(totalItems / pageSize)\<close> when both are known and non-zero (a number other
  than 0 and NaN), and 1 otherwise. For a count and a limit that are positive integers
  below \<open>2 ^ 53\<close> this is the integer ceiling of the exact quotient. With a count of
  95, a limit of 20 and page 2, \<open>totalPages\<close> is 5.
\<close>

theorem getPagingData_totalPages:
  "totalItems (getPagingData data limit page) = (case count data of None \<Rightarrow> Num 0 | Some c \<Rightarrow> c)
   \<and> pageSize (getPagingData data limit page) =
       (case limit of None \<Rightarrow> (case count data of None \<Rightarrow> Num 0 | Some c \<Rightarrow> c) | Some l \<Rightarrow> l)
   \<and> totalPages (getPagingData data limit page) =
       (if pageSize (getPagingData data limit page) \<notin> {Num 0, NaN}
           \<and> totalItems (getPagingData data limit page) \<notin> {Num 0, NaN}
        then Math_ceil (js_div (totalItems (getPagingData data limit page))
                               (pageSize (getPagingData data limit page)))
        else Num 1)
   \<and> (count data = Some (Num (of_int a)) \<and> limit = Some (Num (of_int b))
        \<and> 0 < a \<and> a < 2 ^ 53 \<and> 0 < b \<and> b < 2 ^ 53
       \<longrightarrow> totalPages (getPagingData data limit page) = Num (of_int \<lceil>of_int a / of_int b :: rat\<rceil>))
   \<and> totalPages (getPagingData \<lparr> count = Some (Num 95), items = its \<rparr> (Some (Num 20)) (Some (Num 2)))
       = Num 5"
proof -
  have a: "totalItems (getPagingData data limit page) = (case count data of None \<Rightarrow> Num 0 | Some c \<Rightarrow> c)"
    by (simp add: getPagingData_def Let_def)
  have b: "pageSize (getPagingData data limit page) =
       (case limit of None \<Rightarrow> (case count data of None \<Rightarrow> Num 0 | Some c \<Rightarrow> c) | Some l \<Rightarrow> l)"
    by (simp add: getPagingData_def Let_def)
  have c: "totalPages (getPagingData data limit page) =
       (if pageSize (getPagingData data limit page) \<notin> {Num 0, NaN}
           \<and> totalItems (getPagingData data limit page) \<notin> {Num 0, NaN}
        then Math_ceil (js_div (totalItems (getPagingData data limit page))
                               (pageSize (getPagingData data limit page)))
        else Num 1)"
    by (simp add: getPagingData_def Let_def truthy_iff)
  have d: "totalPages (getPagingData data limit page) = Num (of_int \<lceil>of_int a / of_int b :: rat\<rceil>)"
    if h: "count data = Some (Num (of_int a))" "limit = Some (Num (of_int b))"
       "0 < a" "a < 2 ^ 53" "0 < b" "b < 2 ^ 53"
  proof -
    have "totalPages (getPagingData data limit page)
            = Math_ceil (js_div (Num (of_int a)) (Num (of_int b)))"
      using h(3,5) by (simp add: getPagingData_def Let_def h(1,2))
    then show ?thesis
      by (simp only: ceil_div_binary64 [OF h(3,4,5,6)])
  qed
  have e: "totalPages (getPagingData \<lparr> count = Some (Num 95), items = its \<rparr> (Some (Num 20)) (Some (Num 2)))
       = Num 5"
  proof -
    have "Math_ceil (js_div (Num 95) (Num 20)) = Num 5" by code_simp
    then show ?thesis by (simp add: getPagingData_def Let_def)
  qed
  from a b c d e show ?thesis by blast
qed

theorem getPagingData_totalPages_witness:
  "count \<lparr> count = Some (Num 7), items = [1::nat, 2] \<rparr> = Some (Num (of_int 7))
   \<and> (0::int) < 7 \<and> (7::int) < 2 ^ 53 \<and> (0::int) < 2 \<and> (2::int) < 2 ^ 53
   \<and> totalPages (getPagingData \<lparr> count = Some (Num 7), items = [1::nat, 2] \<rparr> (Some (Num 2)) None) = Num 4"
proof -
  have c: "\<lceil>of_int 7 / of_int 2 :: rat\<rceil> = 4" by (simp add: ceiling_unique)
  have "count \<lparr> count = Some (Num 7), items = [1::nat, 2] \<rparr> = Some (Num (of_int 7))
          \<and> Some (Num 2) = Some (Num (of_int 2))
          \<and> (0::int) < 7 \<and> (7::int) < 2 ^ 53 \<and> (0::int) < 2 \<and> (2::int) < 2 ^ 53
        \<longrightarrow> totalPages (getPagingData \<lparr> count = Some (Num 7), items = [1::nat, 2] \<rparr> (Some (Num 2)) None)
              = Num (of_int \<lceil>of_int 7 / of_int 2 :: rat\<rceil>)"
    using getPagingData_totalPages
            [where data = "\<lparr> count = Some (Num 7), items = [1::nat, 2] \<rparr>"
               and limit = "Some (Num 2)" and page = None and a = 7 and b = 2 and its = "[]"]
    by blast
  then show ?thesis
    unfolding c by simp
qed

text \<open>
  Beyond \<open>2 ^ 53\<close> the quotient is rounded before the ceiling is taken: here the exact
  quotient is just above 3 and its binary64 value is 3.
\<close>

lemma getPagingData_rounded_quotient:
  "totalPages (getPagingData \<lparr> count = Some (Num 13510798882111492), items = its \<rparr>
                 (Some (Num 4503599627370497)) page) = Num 3"
proof -
  have "Math_ceil (js_div (Num 13510798882111492) (Num 4503599627370497)) = Num 3" by code_simp
  then show ?thesis by (simp add: getPagingData_def Let_def)
qed

section \<open>The loops of getCursor\<close>







lemma str_split_nonempty: "split_from sep cur s \<noteq> []"
  by (induction s arbitrary: cur) auto



section \<open>Splitting and trimming\<close>

lemma split_from_no_sep: "sep \<notin> set s \<Longrightarrow> split_from sep cur s = [cur @ s]"
  by (induction s arbitrary: cur) auto

lemma split_from_length:
  "length (split_from sep cur s) = Suc (length (filter (\<lambda>c. c = sep) s))"
  by (induction s arbitrary: cur) auto

lemma str_split_single: "sep \<notin> set s \<Longrightarrow> str_split sep s = [s]"
  by (simp add: str_split_def split_from_no_sep)

lemma str_split_length: "length (str_split sep s) = Suc (length (filter (\<lambda>c. c = sep) s))"
  by (simp add: str_split_def split_from_length)

lemma str_split_several: "sep \<in> set s \<Longrightarrow> length (str_split sep s) \<noteq> 1"
proof -
  assume "sep \<in> set s"
  then have "filter (\<lambda>c. c = sep) s \<noteq> []"
    by (simp add: filter_empty_conv)
  then show ?thesis by (simp add: str_split_length)
qed

lemma split_from_hd: "cur \<noteq> [] \<Longrightarrow> hd (split_from sep cur s) \<noteq> []"
  by (induction s arbitrary: cur) auto

lemma dropWhile_snoc_keep: "\<not> P x \<Longrightarrow> \<exists>zs. dropWhile P (ys @ [x]) = zs @ [x]"
  by (induction ys) auto

lemma str_trim_hd:
  assumes "str_trim s \<noteq> []"
  shows "\<not> is_space (hd (str_trim s))"
proof -
  let ?u = "dropWhile is_space s"
  have une: "?u \<noteq> []"
  proof
    assume e: "?u = []"
    have "str_trim s = []" unfolding str_trim_def e by simp
    with assms show False by simp
  qed
  then obtain x xs where u: "?u = x # xs" by (cases ?u) auto
  have nx: "\<not> is_space x" using u by (metis hd_dropWhile list.sel(1) une)
  have "\<exists>zs. dropWhile is_space (rev xs @ [x]) = zs @ [x]"
    using nx by (rule dropWhile_snoc_keep)
  then obtain zs where "dropWhile is_space (rev xs @ [x]) = zs @ [x]" by blast
  then have "str_trim s = x # rev zs"
    by (simp add: str_trim_def u)
  then show ?thesis using nx by simp
qed

lemma toUpperCase_ASC: "toUpperCase ''ASC'' = ''ASC''"
  by (simp add: toUpperCase_def toUpperCase_char_def)

lemma parseSortPart_empty:
  "str_trim part = [] \<Longrightarrow> parseSortPart part = \<lparr> field = None, order = ''ASC'' \<rparr>"
  by (simp add: parseSortPart_def str_split_def toUpperCase_ASC)

lemma parseSortPart_field_None:
  "field (parseSortPart part) = None \<longleftrightarrow> str_trim part = []"
proof
  assume "str_trim part = []"
  then show "field (parseSortPart part) = None" by (simp add: parseSortPart_empty)
next
  assume a: "field (parseSortPart part) = None"
  show "str_trim part = []"
  proof (rule ccontr)
    assume ne: "str_trim part \<noteq> []"
    then obtain x xs where t: "str_trim part = x # xs" by (cases "str_trim part") auto
    have "\<not> is_space x" using str_trim_hd [OF ne] t by simp
    then have "x \<noteq> CHR '' ''" by (auto simp: is_space_def)
    then have "str_split CHR '' '' (str_trim part) = split_from CHR '' '' [x] xs"
      by (simp add: str_split_def t)
    moreover have "hd (split_from CHR '' '' [x] xs) \<noteq> []" by (rule split_from_hd) simp
    moreover have "split_from CHR '' '' [x] xs \<noteq> []" by (rule str_split_nonempty)
    ultimately have "filter (\<lambda>t. t \<noteq> []) (str_split CHR '' '' (str_trim part)) \<noteq> []"
      by (metis (mono_tags, lifting) filter_empty_conv hd_in_set)
    then show False using a
      by (auto simp: parseSortPart_def Let_def split: list.splits)
  qed
qed

lemma split_from_hd_takeWhile:
  "hd (split_from sep cur s) = cur @ takeWhile (\<lambda>c. c \<noteq> sep) s"
  by (induction s arbitrary: cur) auto

lemma parseSortPart_field:
  "field (parseSortPart part) = (if str_trim part = [] then None else Some (clause_name part))"
proof (cases "str_trim part = []")
  case True
  then show ?thesis by (simp add: parseSortPart_empty)
next
  case False
  then obtain x xs where t: "str_trim part = x # xs" by (cases "str_trim part") auto
  have "\<not> is_space x" using str_trim_hd [OF False] t by simp
  then have x: "x \<noteq> CHR '' ''" by (auto simp: is_space_def)
  let ?l = "split_from CHR '' '' [x] xs"
  have l: "str_split CHR '' '' (str_trim part) = ?l"
    using x by (simp add: str_split_def t)
  have ne: "?l \<noteq> []" by (rule str_split_nonempty)
  have h: "hd ?l = clause_name part"
    using x by (simp add: split_from_hd_takeWhile clause_name_def t)
  have hne: "hd ?l \<noteq> []" by (rule split_from_hd) simp
  obtain y ys where ly: "?l = y # ys" using ne by (cases ?l) auto
  have "filter (\<lambda>t. t \<noteq> []) ?l = y # filter (\<lambda>t. t \<noteq> []) ys"
    using hne ly by simp
  then have "field (parseSortPart part) = Some y"
    unfolding parseSortPart_def l by (simp add: Let_def)
  then show ?thesis using False h ly by simp
qed

lemma parseSortPart_name:
  "(case field (parseSortPart part) of None \<Rightarrow> [] | Some n \<Rightarrow> n) = clause_name part"
  by (simp add: parseSortPart_field clause_name_def)

lemma Array_join_joined_with:
  "Array_join sep xs = joined_with sep (map (\<lambda>x. case x of None \<Rightarrow> [] | Some n \<Rightarrow> n) xs)"
  by (induction sep xs rule: Array_join.induct) (simp_all add: joined_with_def)

lemma Array_join_clause_names:
  "Array_join sep (map field (map parseSortPart (str_split CHR '','' s)))
     = joined_with sep (clause_names s)"
  by (simp add: Array_join_joined_with clause_names_def o_def parseSortPart_name)

section \<open>The keyset predicate on rows\<close>




section \<open>Properties of getCursor\<close>



lemma getCursor_None:
  "getCursor s None =
     Inr \<lparr> whereSql = None,
           propSql = (if length (str_split CHR '','' s) = 1
                      then field (parseSortPart (hd (str_split CHR '','' s)))
                      else Some (''CONCAT('' @ Array_join '', ':', ''
                                   (map field (map parseSortPart (str_split CHR '','' s))) @ '')'')) \<rparr>"
proof -
  have ne: "str_split CHR '','' s \<noteq> []" by (simp add: str_split_def str_split_nonempty)
  then show ?thesis
    by (cases "str_split CHR '','' s") (simp_all add: getCursor_def parseSortString_def Let_def)
qed

lemma getCursor_falsy:
  "\<not> cursor_truthy c \<Longrightarrow> getCursor s (Some c) = getCursor s None"
  by (simp add: getCursor_def parseSortString_def)

text \<open>
  C6. For every sort string, \<open>getCursor\<close> without a cursor returns no predicate and
  still returns the sort-key expression. For a sort string of one clause (no comma) the
  expression is the field name of that clause, and undefined when the clause is empty
  after trimming. For several clauses it is \<open>CONCAT\<close> of the field names of the clauses
  in declared order, with \<^verbatim>\<open>, ':', \<close> between each name and the next. So it is for
  one, two and three fields.
\<close>

theorem getCursor_without_cursor:
  "(CHR '','' \<notin> set s \<longrightarrow>
      getCursor s None =
        Inr \<lparr> whereSql = None,
              propSql = (if str_trim s = [] then None else Some (clause_name s)) \<rparr>)
   \<and> (CHR '','' \<in> set s \<longrightarrow>
      getCursor s None =
        Inr \<lparr> whereSql = None,
              propSql = Some (''CONCAT('' @ joined_with '', ':', '' (clause_names s) @ '')'') \<rparr>)
   \<and> getCursor ''id DESC'' None = Inr \<lparr> whereSql = None, propSql = Some ''id'' \<rparr>
   \<and> getCursor ''a ASC, b DESC'' None = Inr \<lparr> whereSql = None, propSql = Some ''CONCAT(a, ':', b)'' \<rparr>
   \<and> getCursor ''a ASC, b DESC, c'' None =
       Inr \<lparr> whereSql = None, propSql = Some ''CONCAT(a, ':', b, ':', c)'' \<rparr>
   \<and> clause_names ''a ASC, b DESC, c'' = [''a'', ''b'', ''c'']
   \<and> joined_with '', ':', '' [''a'', ''b'', ''c''] = ''a, ':', b, ':', c''"
proof -
  have a: "getCursor s None =
        Inr \<lparr> whereSql = None,
              propSql = (if str_trim s = [] then None else Some (clause_name s)) \<rparr>"
    if "CHR '','' \<notin> set s"
    using that by (simp add: getCursor_None str_split_single parseSortPart_field)
  have b: "getCursor s None =
        Inr \<lparr> whereSql = None,
              propSql = Some (''CONCAT('' @ joined_with '', ':', '' (clause_names s) @ '')'') \<rparr>"
    if "CHR '','' \<in> set s"
    using str_split_several [OF that]
    by (simp only: getCursor_None Array_join_clause_names if_False)
  have c: "getCursor ''id DESC'' None = Inr \<lparr> whereSql = None, propSql = Some ''id'' \<rparr>"
    by code_simp
  have d: "getCursor ''a ASC, b DESC'' None = Inr \<lparr> whereSql = None, propSql = Some ''CONCAT(a, ':', b)'' \<rparr>"
    by code_simp
  have e: "getCursor ''a ASC, b DESC, c'' None =
       Inr \<lparr> whereSql = None, propSql = Some ''CONCAT(a, ':', b, ':', c)'' \<rparr>"
    by code_simp
  have f: "clause_names ''a ASC, b DESC, c'' = [''a'', ''b'', ''c'']"
    by code_simp
  have g: "joined_with '', ':', '' [''a'', ''b'', ''c''] = ''a, ':', b, ':', c''"
    by (simp add: joined_with_def)
  from a b c d e f g show ?thesis by blast
qed

theorem getCursor_without_cursor_witness:
  "CHR '','' \<notin> set ''createdAt'' \<and> CHR '','' \<in> set ''x,y,z''
   \<and> getCursor ''createdAt'' None = Inr \<lparr> whereSql = None, propSql = Some ''createdAt'' \<rparr>
   \<and> getCursor ''x,y,z'' None = Inr \<lparr> whereSql = None, propSql = Some ''CONCAT(x, ':', y, ':', z)'' \<rparr>"
proof -
  have 1: "CHR '','' \<notin> set ''createdAt''" by simp
  have 2: "CHR '','' \<in> set ''x,y,z''" by simp
  have 3: "(if str_trim ''createdAt'' = [] then None else Some (clause_name ''createdAt''))
             = Some ''createdAt''" by code_simp
  have 4: "Some (''CONCAT('' @ joined_with '', ':', '' (clause_names ''x,y,z'') @ '')'')
             = Some ''CONCAT(x, ':', y, ':', z)''" by code_simp
  show ?thesis
    using getCursor_without_cursor [of "''createdAt''"] getCursor_without_cursor [of "''x,y,z''"] 1 2 3 4
    by (simp del: set_simps)
qed

text \<open>
  C10. For every sort string, \<open>getCursor\<close> with the numeric cursor 0 or with the empty
  string returns exactly what it returns without a cursor, and its predicate is
  undefined: in the model \<open>parseCursor\<close> is reached only through a truthy cursor.
\<close>

theorem getCursor_falsy_cursor:
  "getCursor s (Some (CNum (Num 0))) = getCursor s None
   \<and> getCursor s (Some (CStr '''')) = getCursor s None
   \<and> map_sum id whereSql (getCursor s (Some (CNum (Num 0)))) = Inr None
   \<and> map_sum id whereSql (getCursor s (Some (CStr ''''))) = Inr None
   \<and> getCursor ''id'' (Some (CNum (Num 0))) = Inr \<lparr> whereSql = None, propSql = Some ''id'' \<rparr>"
proof -
  have a: "getCursor s (Some (CNum (Num 0))) = getCursor s None"
    by (rule getCursor_falsy) simp
  have b: "getCursor s (Some (CStr '''')) = getCursor s None"
    by (rule getCursor_falsy) simp
  have c: "map_sum id whereSql (getCursor s None) = Inr None"
    by (simp add: getCursor_None)
  have d: "getCursor ''id'' (Some (CNum (Num 0))) = Inr \<lparr> whereSql = None, propSql = Some ''id'' \<rparr>"
    by code_simp
  from a b c d show ?thesis by simp
qed

theorem getCursor_falsy_cursor_witness:
  "getCursor ''id DESC'' (Some (CStr [])) = Inr \<lparr> whereSql = None, propSql = Some ''id'' \<rparr>
   \<and> getCursor ''id DESC'' (Some (CNum (Num 0))) = Inr \<lparr> whereSql = None, propSql = Some ''id'' \<rparr>"
proof -
  have "getCursor ''id DESC'' None = Inr \<lparr> whereSql = None, propSql = Some ''id'' \<rparr>"
    by code_simp
  then show ?thesis
    using getCursor_falsy_cursor [of "''id DESC''"] by simp
qed

text \<open>
  C2 as stated fails: the empty sort string has one clause, empty after trimming, and
  the parser returns a sort-field list for it, whose one field has no name.
\<close>

theorem parseSortString_empty_clause_counterexample:
  "str_trim (str_split CHR '','' '''' ! 0) = ''''
   \<and> parseSortString '''' = Inr [\<lparr> field = None, order = ''ASC'' \<rparr>]"
  by code_simp

text \<open>
  C2, as the code has it. For every sort string the parser raises no error. It returns
  one sort field for each comma-separated clause; the field name is undefined exactly
  for the clauses that are empty after trimming, and such a clause gets the order
  \<open>ASC\<close>.
\<close>

theorem parseSortString_never_fails:
  "\<exists>fs. parseSortString s = Inr fs
     \<and> length fs = length (str_split CHR '','' s)
     \<and> (\<forall>i < length fs.
           (field (fs ! i) = None \<longleftrightarrow> str_trim (str_split CHR '','' s ! i) = [])
           \<and> (str_trim (str_split CHR '','' s ! i) = [] \<longrightarrow> fs ! i = \<lparr> field = None, order = ''ASC'' \<rparr>))"
  by (simp add: parseSortString_def parseSortPart_field_None parseSortPart_empty)

theorem parseSortString_never_fails_witness:
  "parseSortString ''a,,b'' =
     Inr [\<lparr> field = Some ''a'', order = ''ASC'' \<rparr>, \<lparr> field = None, order = ''ASC'' \<rparr>,
          \<lparr> field = Some ''b'', order = ''ASC'' \<rparr>]
   \<and> str_trim (str_split CHR '','' ''a,,b'' ! 1) = []"
proof -
  have "parseSortString ''a,,b'' =
     Inr [\<lparr> field = Some ''a'', order = ''ASC'' \<rparr>, \<lparr> field = None, order = ''ASC'' \<rparr>,
          \<lparr> field = Some ''b'', order = ''ASC'' \<rparr>]" by code_simp
  moreover have "str_trim (str_split CHR '','' ''a,,b'' ! 1) = []" by code_simp
  ultimately show ?thesis
    using parseSortString_never_fails [of "''a,,b''"] by simp
qed

section \<open>The loop of parseCursor\<close>

lemma parseCursor_loop_step:
  "i < length flds \<Longrightarrow>
   parseCursor_loop flds values i result =
     parseCursor_loop flds values (Suc i)
       (result(ToString (field (flds ! i)) \<mapsto> values_at values i))"
  by (subst parseCursor_loop.simps) simp

lemma parseCursor_loop_done:
  "length flds \<le> i \<Longrightarrow> parseCursor_loop flds values i result = result"
  by (subst parseCursor_loop.simps) simp

lemma parseCursor_loop_foldl:
  "i \<le> length flds \<Longrightarrow>
   parseCursor_loop flds values i result =
     foldl (\<lambda>m j. m(ToString (field (flds ! j)) \<mapsto> values_at values j)) result [i..<length flds]"
proof (induction "length flds - i" arbitrary: i result)
  case 0
  then show ?case by (simp add: parseCursor_loop_done)
next
  case (Suc n)
  then have il: "i < length flds" by simp
  have "n = length flds - Suc i" using Suc.hyps(2) by simp
  then have "parseCursor_loop flds values (Suc i)
            (result(ToString (field (flds ! i)) \<mapsto> values_at values i))
     = foldl (\<lambda>m j. m(ToString (field (flds ! j)) \<mapsto> values_at values j))
         (result(ToString (field (flds ! i)) \<mapsto> values_at values i)) [Suc i..<length flds]"
    using il by (intro Suc.hyps(1)) simp_all
  moreover have "[i..<length flds] = i # [Suc i..<length flds]"
    using il by (simp add: upt_conv_Cons)
  ultimately show ?case
    using il by (simp add: parseCursor_loop_step)
qed

lemma parseCursor_loop_other:
  "(\<And>j. i \<le> j \<Longrightarrow> j < length flds \<Longrightarrow> ToString (field (flds ! j)) \<noteq> k) \<Longrightarrow>
   parseCursor_loop flds values i result k = result k"
proof (induction "length flds - i" arbitrary: i result)
  case 0
  then show ?case by (simp add: parseCursor_loop_done)
next
  case (Suc n)
  then have il: "i < length flds" by simp
  have "parseCursor_loop flds values (Suc i)
          (result(ToString (field (flds ! i)) \<mapsto> values_at values i)) k
        = (result(ToString (field (flds ! i)) \<mapsto> values_at values i)) k"
    using Suc.hyps(2) Suc.prems by (intro Suc.hyps(1)) auto
  then show ?case
    using Suc.prems [of i] il by (simp add: parseCursor_loop_step)
qed

lemma parseCursor_loop_last:
  "i \<le> j \<Longrightarrow> j < length flds \<Longrightarrow>
   (\<And>j'. j < j' \<Longrightarrow> j' < length flds \<Longrightarrow>
          ToString (field (flds ! j')) \<noteq> ToString (field (flds ! j))) \<Longrightarrow>
   parseCursor_loop flds values i result (ToString (field (flds ! j))) = Some (values_at values j)"
proof (induction "length flds - i" arbitrary: i result)
  case 0
  then show ?case by simp
next
  case (Suc n)
  then have il: "i < length flds" by simp
  show ?case
  proof (cases "i = j")
    case True
    have "parseCursor_loop flds values (Suc j)
            (result(ToString (field (flds ! j)) \<mapsto> values_at values j)) (ToString (field (flds ! j)))
          = (result(ToString (field (flds ! j)) \<mapsto> values_at values j)) (ToString (field (flds ! j)))"
      using Suc.prems(3) by (intro parseCursor_loop_other) auto
    then show ?thesis
      using True il by (simp add: parseCursor_loop_step)
  next
    case False
    then have "Suc i \<le> j" using Suc.prems(1) by simp
    moreover have "n = length flds - Suc i" using Suc.hyps(2) by simp
    ultimately have "parseCursor_loop flds values (Suc i)
            (result(ToString (field (flds ! i)) \<mapsto> values_at values i)) (ToString (field (flds ! j)))
          = Some (values_at values j)"
      using Suc.prems(2,3) by (intro Suc.hyps(1)) auto
    then show ?thesis
      using il by (simp add: parseCursor_loop_step)
  qed
qed

lemma parseCursor_loop_dom:
  "dom (parseCursor_loop flds values i result) =
     dom result \<union> (\<lambda>f. ToString (field f)) ` set (drop i flds)"
proof (induction "length flds - i" arbitrary: i result)
  case 0
  then show ?case by (simp add: parseCursor_loop_done)
next
  case (Suc n)
  then have il: "i < length flds" by simp
  have "n = length flds - Suc i" using Suc.hyps(2) by simp
  then have "dom (parseCursor_loop flds values (Suc i)
            (result(ToString (field (flds ! i)) \<mapsto> values_at values i)))
        = dom (result(ToString (field (flds ! i)) \<mapsto> values_at values i))
          \<union> (\<lambda>f. ToString (field f)) ` set (drop (Suc i) flds)"
    by (rule Suc.hyps(1))
  moreover have "drop i flds = flds ! i # drop (Suc i) flds"
    using il by (simp add: Cons_nth_drop_Suc)
  ultimately show ?case
    using il by (simp add: parseCursor_loop_step)
qed

lemma parseCursor_loop_cong:
  "(\<And>j. i \<le> j \<Longrightarrow> j < length flds \<Longrightarrow> values_at values j = values_at values' j) \<Longrightarrow>
   parseCursor_loop flds values i result = parseCursor_loop flds values' i result"
proof (induction "length flds - i" arbitrary: i result)
  case 0
  then show ?case by (simp add: parseCursor_loop_done)
next
  case (Suc n)
  then have il: "i < length flds" by simp
  have "n = length flds - Suc i" using Suc.hyps(2) by simp
  then have "parseCursor_loop flds values (Suc i)
            (result(ToString (field (flds ! i)) \<mapsto> values_at values i))
     = parseCursor_loop flds values' (Suc i)
            (result(ToString (field (flds ! i)) \<mapsto> values_at values i))"
    using Suc.prems by (intro Suc.hyps(1)) auto
  then show ?case
    using il Suc.prems [of i] by (simp add: parseCursor_loop_step)
qed

lemma values_at_take:
  "j < n \<Longrightarrow> values_at (take n values) j = values_at values j"
  by (simp add: values_at_def)

lemma values_at_map_Number:
  "values_at (map Number segs) i = (if i < length segs then VNum (Number (segs ! i)) else VUndef)"
  by (simp add: values_at_def)

lemma last_with_name_later:
  "last_with_name flds i \<Longrightarrow> i < j \<Longrightarrow> j < length flds \<Longrightarrow>
   ToString (field (flds ! j)) \<noteq> ToString (field (flds ! i))"
proof -
  assume l: "last_with_name flds i" and ij: "i < j" and jl: "j < length flds"
  have "flds ! j \<in> set (drop (Suc i) flds)"
  proof -
    have "drop (Suc i) flds ! (j - Suc i) = flds ! j" using ij jl by simp
    moreover have "j - Suc i < length (drop (Suc i) flds)" using ij jl by simp
    ultimately show ?thesis by (metis nth_mem)
  qed
  then have "ToString (field (flds ! j)) \<in> (\<lambda>f. ToString (field f)) ` set (drop (Suc i) flds)"
    by (rule imageI)
  then show ?thesis using l by (auto simp: last_with_name_def)
qed

lemma distinct_last_with_name:
  "distinct (map (\<lambda>f. ToString (field f)) flds) \<Longrightarrow> i < length flds \<Longrightarrow> last_with_name flds i"
proof -
  assume d: "distinct (map (\<lambda>f. ToString (field f)) flds)" and il: "i < length flds"
  have "flds = take i flds @ flds ! i # drop (Suc i) flds"
    using il by (simp add: id_take_nth_drop)
  then have "map (\<lambda>f. ToString (field f)) flds =
       map (\<lambda>f. ToString (field f)) (take i flds) @ ToString (field (flds ! i))
         # map (\<lambda>f. ToString (field f)) (drop (Suc i) flds)"
    by (metis list.simps(9) map_append)
  then have "distinct (map (\<lambda>f. ToString (field f)) (take i flds) @ ToString (field (flds ! i))
         # map (\<lambda>f. ToString (field f)) (drop (Suc i) flds))"
    using d by simp
  then show ?thesis by (simp add: last_with_name_def)
qed

lemma parseCursor_string:
  "parseCursor flds (CStr s) =
     Inr (parseCursor_loop flds (map Number (str_split CHR '':'' s)) 0 Map.empty)"
  by (simp add: Let_def)

lemma parseCursor_string_lookup:
  assumes "i < length flds" "last_with_name flds i"
  shows "parseCursor_loop flds (map Number segs) 0 Map.empty (ToString (field (flds ! i)))
         = Some (if i < length segs then VNum (Number (segs ! i)) else VUndef)"
proof -
  have "parseCursor_loop flds (map Number segs) 0 Map.empty (ToString (field (flds ! i)))
         = Some (values_at (map Number segs) i)"
    using assms by (intro parseCursor_loop_last) (auto dest: last_with_name_later)
  then show ?thesis by (simp add: values_at_map_Number)
qed

section \<open>Properties of parseCursor\<close>

text \<open>
  C5. For every non-empty list of sort fields, a numeric cursor (a number or a bigint)
  is decoded to the mapping of the first field's name to the cursor, and nothing else;
  a string cursor is
  decoded position by position: going through the fields in order, the name of field
  \<open>i\<close> is assigned the number read from segment \<open>i\<close>, so in the result field \<open>i\<close>
  maps to that number (for every index that is the last with its name, that is for
  every index when the names are distinct). \<open>5:10\<close> against \<open>[a, b]\<close> is \<open>{a: 5, b: 10}\<close>, and the number 42
  against \<open>[a, b]\<close> is \<open>{a: 42}\<close>, without \<open>b\<close>.
\<close>

theorem parseCursor_positional:
  "(flds \<noteq> [] \<longrightarrow>
     parseCursor flds (CNum n) = Inr [ToString (field (hd flds)) \<mapsto> VNum n]
     \<and> parseCursor flds (CBig b) = Inr [ToString (field (hd flds)) \<mapsto> VBig b]
     \<and> parseCursor flds (CStr s) =
         Inr (foldl (\<lambda>m i. m(ToString (field (flds ! i))
                              \<mapsto> values_at (map Number (str_split CHR '':'' s)) i))
                    Map.empty [0..<length flds])
     \<and> (\<exists>m. parseCursor flds (CStr s) = Inr m
          \<and> (\<forall>i. i < length flds \<and> i < length (str_split CHR '':'' s) \<and> last_with_name flds i
                \<longrightarrow> m (ToString (field (flds ! i)))
                    = Some (VNum (Number (str_split CHR '':'' s ! i))))))
     \<and> parseCursor [\<lparr> field = Some ''a'', order = ''ASC'' \<rparr>, \<lparr> field = Some ''b'', order = ''ASC'' \<rparr>]
                    (CStr ''5:10'')
         = Inr [''a'' \<mapsto> VNum (Num 5), ''b'' \<mapsto> VNum (Num 10)]
     \<and> parseCursor [\<lparr> field = Some ''a'', order = ''ASC'' \<rparr>, \<lparr> field = Some ''b'', order = ''ASC'' \<rparr>]
                    (CNum (Num 42))
         = Inr [''a'' \<mapsto> VNum (Num 42)]
     \<and> [''a'' \<mapsto> VNum (Num 42)] ''b'' = None"
proof -
  have a: "parseCursor flds (CNum n) = Inr [ToString (field (hd flds)) \<mapsto> VNum n]"
    if "flds \<noteq> []"
    using that by (cases flds) simp_all
  have a': "parseCursor flds (CBig b) = Inr [ToString (field (hd flds)) \<mapsto> VBig b]"
    if "flds \<noteq> []"
    using that by (cases flds) simp_all
  have a'': "parseCursor flds (CStr s) =
         Inr (foldl (\<lambda>m i. m(ToString (field (flds ! i))
                              \<mapsto> values_at (map Number (str_split CHR '':'' s)) i))
                    Map.empty [0..<length flds])"
    by (simp only: parseCursor_string parseCursor_loop_foldl [OF le0])
  have b: "\<exists>m. parseCursor flds (CStr s) = Inr m
          \<and> (\<forall>i. i < length flds \<and> i < length (str_split CHR '':'' s) \<and> last_with_name flds i
                \<longrightarrow> m (ToString (field (flds ! i)))
                    = Some (VNum (Number (str_split CHR '':'' s ! i))))"
    by (simp add: parseCursor_string_lookup)
  have five: "Number ''5'' = Num 5" and ten: "Number ''10'' = Num 10"
    by code_simp+
  have c: "parseCursor [\<lparr> field = Some ''a'', order = ''ASC'' \<rparr>, \<lparr> field = Some ''b'', order = ''ASC'' \<rparr>]
                    (CStr ''5:10'')
         = Inr [''a'' \<mapsto> VNum (Num 5), ''b'' \<mapsto> VNum (Num 10)]"
    by (simp add: str_split_def parseCursor_loop_step parseCursor_loop_done values_at_def
                  ToString_def five ten)
  have d: "parseCursor [\<lparr> field = Some ''a'', order = ''ASC'' \<rparr>, \<lparr> field = Some ''b'', order = ''ASC'' \<rparr>]
                    (CNum (Num 42))
         = Inr [''a'' \<mapsto> VNum (Num 42)]"
    by (simp add: ToString_def)
  have e: "[''a'' \<mapsto> VNum (Num 42)] ''b'' = None"
    by simp
  from a a' a'' b c d e show ?thesis by blast
qed

theorem parseCursor_positional_witness:
  "[\<lparr> field = Some ''x'', order = ''ASC'' \<rparr>, \<lparr> field = Some ''y'', order = ''DESC'' \<rparr>] \<noteq> []
   \<and> last_with_name [\<lparr> field = Some ''x'', order = ''ASC'' \<rparr>, \<lparr> field = Some ''y'', order = ''DESC'' \<rparr>] 1
   \<and> (\<exists>m. parseCursor [\<lparr> field = Some ''x'', order = ''ASC'' \<rparr>, \<lparr> field = Some ''y'', order = ''DESC'' \<rparr>]
                        (CStr ''3:4'') = Inr m
          \<and> m ''y'' = Some (VNum (Num 4)))"
proof -
  let ?f = "[\<lparr> field = Some ''x'', order = ''ASC'' \<rparr>, \<lparr> field = Some ''y'', order = ''DESC'' \<rparr>]"
  have ne: "?f \<noteq> []" by simp
  have l: "last_with_name ?f 1" by (simp add: last_with_name_def)
  have seg: "str_split CHR '':'' ''3:4'' = [''3'', ''4'']" by (simp add: str_split_def)
  have four: "Number ''4'' = Num 4" by code_simp
  obtain m where m: "parseCursor ?f (CStr ''3:4'') = Inr m"
      "\<forall>i. i < length ?f \<and> i < length (str_split CHR '':'' ''3:4'') \<and> last_with_name ?f i
                \<longrightarrow> m (ToString (field (?f ! i)))
                    = Some (VNum (Number (str_split CHR '':'' ''3:4'' ! i)))"
    using parseCursor_positional [of ?f "Num 0" 0 "''3:4''"] ne by blast
  have "m (ToString (field (?f ! 1))) = Some (VNum (Number (str_split CHR '':'' ''3:4'' ! 1)))"
    using m(2) [rule_format, of 1] l by (simp add: seg)
  then have "m ''y'' = Some (VNum (Num 4))"
    by (simp add: seg four ToString_def)
  with ne l m(1) show ?thesis by blast
qed

text \<open>
  C9. For every string cursor whose number of segments differs from the number of sort
  fields, the decoder raises no error. The mapping it returns has exactly the field
  names as keys; it is the same for every cursor with the same first segments, as many
  as there are fields, so the segments beyond are dropped; and a field beyond the
  segments is mapped to \<open>undefined\<close>.
\<close>

theorem parseCursor_count_mismatch:
  "length (str_split CHR '':'' s) \<noteq> length flds \<longrightarrow>
     (\<exists>m. parseCursor flds (CStr s) = Inr m
        \<and> dom m = (\<lambda>f. ToString (field f)) ` set flds
        \<and> (\<forall>i. length (str_split CHR '':'' s) \<le> i \<and> i < length flds \<and> last_with_name flds i
              \<longrightarrow> m (ToString (field (flds ! i))) = Some VUndef)
        \<and> (\<forall>s'. take (length flds) (str_split CHR '':'' s')
                   = take (length flds) (str_split CHR '':'' s)
              \<longrightarrow> parseCursor flds (CStr s') = Inr m))"
proof
  assume "length (str_split CHR '':'' s) \<noteq> length flds"
  let ?m = "parseCursor_loop flds (map Number (str_split CHR '':'' s)) 0 Map.empty"
  have a: "parseCursor flds (CStr s) = Inr ?m" by (rule parseCursor_string)
  have b: "dom ?m = (\<lambda>f. ToString (field f)) ` set flds"
    by (simp add: parseCursor_loop_dom)
  have c: "?m (ToString (field (flds ! i))) = Some VUndef"
    if "length (str_split CHR '':'' s) \<le> i" "i < length flds" "last_with_name flds i" for i
    using that by (simp add: parseCursor_string_lookup)
  have d: "parseCursor flds (CStr s') = Inr ?m"
    if t: "take (length flds) (str_split CHR '':'' s') = take (length flds) (str_split CHR '':'' s)"
    for s'
  proof -
    have "values_at (map Number (str_split CHR '':'' s')) j
            = values_at (map Number (str_split CHR '':'' s)) j" if "j < length flds" for j
    proof -
      have "values_at (take (length flds) (map Number (str_split CHR '':'' s'))) j
            = values_at (take (length flds) (map Number (str_split CHR '':'' s))) j"
        using t by (simp add: take_map)
      then show ?thesis using that by (simp add: values_at_take)
    qed
    then have "parseCursor_loop flds (map Number (str_split CHR '':'' s')) 0 Map.empty = ?m"
      by (intro parseCursor_loop_cong) simp
    then show ?thesis by (simp add: parseCursor_string)
  qed
  from a b c d show "\<exists>m. parseCursor flds (CStr s) = Inr m
        \<and> dom m = (\<lambda>f. ToString (field f)) ` set flds
        \<and> (\<forall>i. length (str_split CHR '':'' s) \<le> i \<and> i < length flds \<and> last_with_name flds i
              \<longrightarrow> m (ToString (field (flds ! i))) = Some VUndef)
        \<and> (\<forall>s'. take (length flds) (str_split CHR '':'' s')
                   = take (length flds) (str_split CHR '':'' s)
              \<longrightarrow> parseCursor flds (CStr s') = Inr m)"
    by blast
qed


theorem parseCursor_count_mismatch_witness:
  "length (str_split CHR '':'' ''5'')
     \<noteq> length [\<lparr> field = Some ''a'', order = ''ASC'' \<rparr>, \<lparr> field = Some ''b'', order = ''ASC'' \<rparr>]
   \<and> last_with_name [\<lparr> field = Some ''a'', order = ''ASC'' \<rparr>, \<lparr> field = Some ''b'', order = ''ASC'' \<rparr>] 1
   \<and> (\<exists>m. parseCursor [\<lparr> field = Some ''a'', order = ''ASC'' \<rparr>, \<lparr> field = Some ''b'', order = ''ASC'' \<rparr>]
                        (CStr ''5'') = Inr m
          \<and> dom m = {''a'', ''b''} \<and> m ''b'' = Some VUndef)"
proof -
  let ?f = "[\<lparr> field = Some ''a'', order = ''ASC'' \<rparr>, \<lparr> field = Some ''b'', order = ''ASC'' \<rparr>]"
  have seg: "str_split CHR '':'' ''5'' = [''5'']" by (simp add: str_split_def)
  have ne: "length (str_split CHR '':'' ''5'') \<noteq> length ?f" by (simp add: seg)
  have l: "last_with_name ?f 1" by (simp add: last_with_name_def)
  obtain m where m: "parseCursor ?f (CStr ''5'') = Inr m"
      "dom m = (\<lambda>f. ToString (field f)) ` set ?f"
      "\<forall>i. length (str_split CHR '':'' ''5'') \<le> i \<and> i < length ?f \<and> last_with_name ?f i
              \<longrightarrow> m (ToString (field (?f ! i))) = Some VUndef"
    using parseCursor_count_mismatch [of "''5''" ?f] ne by blast
  have "m (ToString (field (?f ! 1))) = Some VUndef"
    using m(3) [rule_format, of 1] l by (simp add: seg)
  then have "m ''b'' = Some VUndef" by (simp add: ToString_def)
  moreover have "dom m = {''a'', ''b''}" using m(2) by (simp add: ToString_def)
  ultimately show ?thesis using ne l m(1) by blast
qed

text \<open>
  C3 as stated fails: \<open>abc\<close> does not parse as a number, and the decoder returns a
  mapping for it, with NaN as the value of the field.
\<close>

theorem parseCursor_non_numeric_counterexample:
  "Number ''abc'' = NaN
   \<and> parseCursor [\<lparr> field = Some ''a'', order = ''ASC'' \<rparr>] (CStr ''abc'')
       = Inr [''a'' \<mapsto> VNum NaN]"
proof -
  have n: "Number ''abc'' = NaN" by code_simp
  then show ?thesis
    by (simp add: str_split_def parseCursor_loop_step parseCursor_loop_done values_at_def
                  ToString_def)
qed

text \<open>
  C3, as the code has it. For every string cursor the decoder raises no error and
  returns a mapping; a field whose segment does not parse as a number (\<open>Number\<close> gives
  NaN for it) is mapped to NaN.
\<close>

theorem parseCursor_non_numeric:
  "\<exists>m. parseCursor flds (CStr s) = Inr m
     \<and> (\<forall>i. i < length flds \<and> i < length (str_split CHR '':'' s) \<and> last_with_name flds i
              \<and> Number (str_split CHR '':'' s ! i) = NaN
           \<longrightarrow> m (ToString (field (flds ! i))) = Some (VNum NaN))"
  by (simp add: parseCursor_string_lookup)

theorem parseCursor_non_numeric_witness:
  "last_with_name [\<lparr> field = Some ''a'', order = ''ASC'' \<rparr>, \<lparr> field = Some ''b'', order = ''DESC'' \<rparr>] 1
   \<and> Number (str_split CHR '':'' ''5:x'' ! 1) = NaN
   \<and> (\<exists>m. parseCursor [\<lparr> field = Some ''a'', order = ''ASC'' \<rparr>, \<lparr> field = Some ''b'', order = ''DESC'' \<rparr>]
                        (CStr ''5:x'') = Inr m
          \<and> m ''b'' = Some (VNum NaN))"
proof -
  let ?f = "[\<lparr> field = Some ''a'', order = ''ASC'' \<rparr>, \<lparr> field = Some ''b'', order = ''DESC'' \<rparr>]"
  have seg: "str_split CHR '':'' ''5:x'' = [''5'', ''x'']" by (simp add: str_split_def)
  have x: "Number ''x'' = NaN" by code_simp
  have l: "last_with_name ?f 1" by (simp add: last_with_name_def)
  obtain m where m: "parseCursor ?f (CStr ''5:x'') = Inr m"
      "\<forall>i. i < length ?f \<and> i < length (str_split CHR '':'' ''5:x'') \<and> last_with_name ?f i
              \<and> Number (str_split CHR '':'' ''5:x'' ! i) = NaN
           \<longrightarrow> m (ToString (field (?f ! i))) = Some (VNum NaN)"
    using parseCursor_non_numeric [of ?f "''5:x''"] by blast
  have "m (ToString (field (?f ! 1))) = Some (VNum NaN)"
    using m(2) [rule_format, of 1] l by (simp add: seg x)
  then have "m ''b'' = Some (VNum NaN)" by (simp add: ToString_def)
  then show ?thesis using l m(1) by (auto simp: seg x)
qed

section \<open>Decimal notation read back by Number\<close>

lemma is_digit_iff: "is_digit c \<longleftrightarrow> c \<in> set ''0123456789''"
  by (auto simp: is_digit_def digit_of_def split: if_splits)

lemma digit_of_char: "0 \<le> d \<Longrightarrow> d < 10 \<Longrightarrow> digit_of 10 (digit_char d) = Some d"
proof -
  assume "0 \<le> d" "d < 10"
  then have "d = 0 \<or> d = 1 \<or> d = 2 \<or> d = 3 \<or> d = 4 \<or> d = 5 \<or> d = 6 \<or> d = 7 \<or> d = 8 \<or> d = 9"
    by arith
  then show ?thesis
    by (elim disjE) (simp_all add: digit_of_def digit_char_def)
qed

lemma is_digit_char: "0 \<le> d \<Longrightarrow> d < 10 \<Longrightarrow> is_digit (digit_char d)"
  by (simp add: is_digit_def digit_of_char)

lemma radix_val_append:
  "radix_val b acc (xs @ ys) =
     (case radix_val b acc xs of None \<Rightarrow> None | Some a \<Rightarrow> radix_val b a ys)"
  by (induction xs arbitrary: acc) (auto split: option.splits)

lemma decimal_pos_digits: "0 \<le> n \<Longrightarrow> c \<in> set (decimal_pos n) \<Longrightarrow> is_digit c"
proof (induction n rule: decimal_pos.induct)
  case (1 n)
  show ?case
  proof (cases "n < 10")
    case True
    then show ?thesis
      using "1.prems" by (subst (asm) decimal_pos.simps) (simp add: is_digit_char)
  next
    case False
    have m: "0 \<le> n mod 10" "n mod 10 < 10" by simp_all
    have "decimal_pos n = decimal_pos (n div 10) @ [digit_char (n mod 10)]"
      using False by (subst decimal_pos.simps) simp
    then have "c \<in> set (decimal_pos (n div 10)) \<or> c = digit_char (n mod 10)"
      using "1.prems"(2) by auto
    then show ?thesis
      using "1.IH" [OF False] "1.prems"(1) False m by (auto simp: is_digit_char)
  qed
qed

lemma decimal_pos_nonempty: "decimal_pos n \<noteq> []"
  by (subst decimal_pos.simps) simp

lemma radix_val_decimal_pos: "0 \<le> n \<Longrightarrow> radix_val 10 0 (decimal_pos n) = Some n"
proof (induction n rule: decimal_pos.induct)
  case (1 n)
  show ?case
  proof (cases "n < 10")
    case True
    then show ?thesis
      using "1.prems" by (subst decimal_pos.simps) (simp add: digit_of_char)
  next
    case False
    then have "radix_val 10 0 (decimal_pos (n div 10)) = Some (n div 10)"
      using "1.IH" "1.prems" by simp
    then show ?thesis
      using False
      by (subst decimal_pos.simps) (simp add: radix_val_append digit_of_char)
  qed
qed

lemma is_digit_not_space: "is_digit c \<Longrightarrow> \<not> is_space c"
  by (auto simp: is_digit_iff is_space_def)

lemma str_trim_id:
  assumes "s \<noteq> []" "\<not> is_space (hd s)" "\<not> is_space (last s)"
  shows "str_trim s = s"
proof -
  have 1: "dropWhile is_space s = s"
    using assms(1,2) by (cases s) auto
  have "rev s \<noteq> []" "\<not> is_space (hd (rev s))"
    using assms(1,3) by (simp_all add: hd_rev)
  then have 2: "dropWhile is_space (rev s) = rev s"
    by (cases "rev s") auto
  show ?thesis by (simp add: str_trim_def 1 2)
qed

lemma decimal_pos_hd: "0 \<le> n \<Longrightarrow> is_digit (hd (decimal_pos n))"
  using decimal_pos_digits [of n "hd (decimal_pos n)"] decimal_pos_nonempty [of n] by simp

lemma takeWhile_decimal_pos: "0 \<le> n \<Longrightarrow> takeWhile is_digit (decimal_pos n) = decimal_pos n"
  by (simp add: takeWhile_eq_all_conv decimal_pos_digits)

lemma dropWhile_decimal_pos: "0 \<le> n \<Longrightarrow> dropWhile is_digit (decimal_pos n) = []"
  by (simp add: decimal_pos_digits)

lemma decimal_pos_not_Infinity: "0 \<le> n \<Longrightarrow> decimal_pos n \<noteq> ''Infinity''"
proof
  assume n: "0 \<le> n" and "decimal_pos n = ''Infinity''"
  then have "hd (decimal_pos n) = CHR ''I''" by simp
  then show False using decimal_pos_hd [OF n] by (simp add: is_digit_iff)
qed

lemma StrUnsignedDecimalLiteral_decimal_pos:
  "0 \<le> n \<Longrightarrow> StrUnsignedDecimalLiteral (decimal_pos n) = binary64 (of_int n)"
  by (simp add: StrUnsignedDecimalLiteral_def decimal_pos_not_Infinity takeWhile_decimal_pos
                dropWhile_decimal_pos decimal_pos_nonempty radix_val_decimal_pos
                ExponentPart_def scale10_def)

lemma StrDecimalLiteral_decimal_pos:
  assumes "0 \<le> n"
  shows "StrDecimalLiteral (decimal_pos n) = binary64 (of_int n)"
proof -
  obtain c t where ct: "decimal_pos n = c # t"
    using decimal_pos_nonempty [of n] by (cases "decimal_pos n") auto
  have "is_digit c" using decimal_pos_hd [OF assms] ct by simp
  then have "c \<noteq> CHR ''+''" "c \<noteq> CHR ''-''" by (auto simp: is_digit_iff)
  then have "StrDecimalLiteral (decimal_pos n) = StrUnsignedDecimalLiteral (decimal_pos n)"
    by (simp add: StrDecimalLiteral_def ct)
  then show ?thesis by (simp add: StrUnsignedDecimalLiteral_decimal_pos assms)
qed

lemma Number_digits:
  assumes "s \<noteq> []" "\<forall>c\<in>set s. is_digit c \<or> c = CHR ''-''"
  shows "Number s = StrDecimalLiteral s"
proof -
  have ns: "\<not> is_space c" if "c \<in> set s" for c
  proof -
    have "is_digit c \<or> c = CHR ''-''" using assms(2) that by blast
    then show ?thesis
    proof
      assume "is_digit c"
      then show ?thesis by (rule is_digit_not_space)
    next
      assume "c = CHR ''-''"
      then show ?thesis by (simp add: is_space_def)
    qed
  qed
  have "hd s \<in> set s" "last s \<in> set s" using assms(1) by simp_all
  then have t: "str_trim s = s"
    using assms(1) ns by (intro str_trim_id) auto
  have unfold: "Number s =
           (case s of
              c # p # ds \<Rightarrow>
                if c = CHR ''0'' \<and> (p = CHR ''x'' \<or> p = CHR ''X'') then NonDecimalIntegerLiteral 16 ds
                else if c = CHR ''0'' \<and> (p = CHR ''o'' \<or> p = CHR ''O'') then NonDecimalIntegerLiteral 8 ds
                else if c = CHR ''0'' \<and> (p = CHR ''b'' \<or> p = CHR ''B'') then NonDecimalIntegerLiteral 2 ds
                else StrDecimalLiteral s
            | _ \<Rightarrow> StrDecimalLiteral s)"
    unfolding Number_def t Let_def using assms(1) by simp
  show ?thesis
  proof (cases s)
    case Nil
    then show ?thesis using assms(1) by simp
  next
    case outer: (Cons c r)
    show ?thesis
    proof (cases r)
      case Nil
      then show ?thesis using unfold by (simp add: outer)
    next
      case (Cons p ds)
      have "p \<in> set s" unfolding outer Cons by simp
      then have "is_digit p \<or> p = CHR ''-''" using assms(2) by blast
      then have "p \<noteq> CHR ''x''" "p \<noteq> CHR ''X''" "p \<noteq> CHR ''o''" "p \<noteq> CHR ''O''"
          "p \<noteq> CHR ''b''" "p \<noteq> CHR ''B''"
        by (auto simp: is_digit_iff)
      then show ?thesis using unfold by (simp add: outer Cons)
    qed
  qed
qed

lemma binary64_nat_int:
  assumes "0 \<le> n" "n \<le> 2 ^ 53"
  shows "binary64 (of_int n) = Num (of_int n)"
proof (cases "n = 0")
  case True
  then show ?thesis by (simp add: binary64_def)
next
  case False
  then have "0 < n" using assms(1) by simp
  then show ?thesis using assms(2) by (rule binary64_int)
qed

lemma Number_decimal_int:
  assumes "\<bar>i\<bar> \<le> 2 ^ 53"
  shows "Number (decimal_int i) = int_num i"
proof (cases "i < 0")
  case False
  then have i: "0 \<le> i" "i \<le> 2 ^ 53" using assms by simp_all
  have "Number (decimal_pos i) = StrDecimalLiteral (decimal_pos i)"
    using i(1) by (intro Number_digits) (auto simp: decimal_pos_nonempty decimal_pos_digits)
  then show ?thesis
    using False i
    by (simp add: decimal_int_def StrDecimalLiteral_decimal_pos binary64_nat_int int_num_def)
next
  case True
  then have i: "0 \<le> - i" "- i \<le> 2 ^ 53" using assms by simp_all
  have "Number (CHR ''-'' # decimal_pos (- i))
          = StrDecimalLiteral (CHR ''-'' # decimal_pos (- i))"
    using decimal_pos_digits [OF i(1)] by (intro Number_digits) auto
  moreover have "StrUnsignedDecimalLiteral (decimal_pos (- i)) = Num (of_int (- i))"
    using i by (simp only: StrUnsignedDecimalLiteral_decimal_pos binary64_nat_int)
  ultimately show ?thesis
    using True
    by (simp add: decimal_int_def StrDecimalLiteral_def int_num_def)
qed

lemma decimal_int_no_colon: "CHR '':'' \<notin> set (decimal_int i)"
proof
  assume a: "CHR '':'' \<in> set (decimal_int i)"
  show False
  proof (cases "i < 0")
    case True
    then have "CHR '':'' \<in> set (decimal_pos (- i))" using a by (simp add: decimal_int_def)
    then have "is_digit CHR '':''" using True by (intro decimal_pos_digits [of "- i"]) simp_all
    then show False by (simp add: is_digit_iff)
  next
    case False
    then have "CHR '':'' \<in> set (decimal_pos i)" using a by (simp add: decimal_int_def)
    then have "is_digit CHR '':''" using False by (intro decimal_pos_digits [of i]) simp_all
    then show False by (simp add: is_digit_iff)
  qed
qed

section \<open>The round trip of the sort key\<close>

lemma split_from_segment:
  "sep \<notin> set x \<Longrightarrow> split_from sep cur (x @ sep # rest) = (cur @ x) # split_from sep [] rest"
  by (induction x arbitrary: cur) auto

lemma str_split_join_str:
  "xs \<noteq> [] \<Longrightarrow> \<forall>x\<in>set xs. sep \<notin> set x \<Longrightarrow> str_split sep (join_str [sep] xs) = xs"
proof (induction xs)
  case Nil
  then show ?case by simp
next
  case (Cons x xs)
  show ?case
  proof (cases xs)
    case Nil
    then show ?thesis using Cons.prems by (simp add: str_split_def split_from_no_sep)
  next
    case (Cons y ys)
    then have "str_split sep (join_str [sep] xs) = xs"
      using Cons.IH Cons.prems by simp
    then show ?thesis
      using Cons Cons.prems by (simp add: str_split_def split_from_segment)
  qed
qed

lemma parseCursor_loop_row:
  assumes "\<And>j. j < length flds \<Longrightarrow>
             values_at values j = VNum (num (row (ToString (field (flds ! j)))))"
  shows "parseCursor_loop flds values i result k =
           (if k \<in> (\<lambda>f. ToString (field f)) ` set (drop i flds)
            then Some (VNum (num (row k))) else result k)"
proof (induction "length flds - i" arbitrary: i result)
  case 0
  then show ?case by (simp add: parseCursor_loop_done)
next
  case (Suc n)
  then have il: "i < length flds" by simp
  have d: "drop i flds = flds ! i # drop (Suc i) flds"
    using il by (simp add: Cons_nth_drop_Suc)
  have "n = length flds - Suc i" using Suc.hyps(2) by simp
  then have "parseCursor_loop flds values (Suc i)
            (result(ToString (field (flds ! i)) \<mapsto> values_at values i)) k
        = (if k \<in> (\<lambda>f. ToString (field f)) ` set (drop (Suc i) flds)
            then Some (VNum (num (row k)))
            else (result(ToString (field (flds ! i)) \<mapsto> values_at values i)) k)"
    by (rule Suc.hyps(1))
  then show ?case
    using il assms [OF il] by (auto simp: parseCursor_loop_step d)
qed

lemma sortKeyValue_single:
  "parseCursor [f] (sortKeyValue num txt [f] row) = Inr (row_mapping num [f] row)"
proof -
  have "[ToString (field f) \<mapsto> VNum (num (row (ToString (field f))))] = row_mapping num [f] row"
    by (rule ext) (simp add: row_mapping_def)
  then show ?thesis by (simp add: sortKeyValue_def)
qed

lemma sortKeyValue_read_back:
  assumes ne: "flds \<noteq> []"
    and rb: "\<forall>f\<in>set flds. Number (txt (row (ToString (field f)))) = num (row (ToString (field f)))
                \<and> CHR '':'' \<notin> set (txt (row (ToString (field f))))"
  shows "parseCursor flds (sortKeyValue num txt flds row) = Inr (row_mapping num flds row)"
proof (cases "length flds = 1")
  case True
  then obtain f where f: "flds = [f]" by (cases flds) auto
  show ?thesis unfolding f by (rule sortKeyValue_single)
next
  case False
  let ?segs = "map (\<lambda>f. txt (row (ToString (field f)))) flds"
  have key: "sortKeyValue num txt flds row = CStr (join_str '':'' ?segs)"
    using False ne by (cases flds; cases "tl flds") (simp_all add: sortKeyValue_def)
  have split: "str_split CHR '':'' (join_str '':'' ?segs) = ?segs"
    using ne rb by (intro str_split_join_str) auto
  have vals: "values_at (map Number ?segs) j = VNum (num (row (ToString (field (flds ! j)))))"
    if "j < length flds" for j
    using that rb by (simp add: values_at_def)
  have "parseCursor_loop flds (map Number ?segs) 0 Map.empty k =
         (if k \<in> (\<lambda>f. ToString (field f)) ` set (drop 0 flds)
          then Some (VNum (num (row k))) else Map.empty k)" for k
    by (rule parseCursor_loop_row) (rule vals)
  then have "parseCursor_loop flds (map Number ?segs) 0 Map.empty k = row_mapping num flds row k" for k
    by (simp only: row_mapping_def drop_0 set_map)
  then have "parseCursor_loop flds (map Number ?segs) 0 Map.empty = row_mapping num flds row"
    by (rule ext)
  then show ?thesis
    by (simp only: key parseCursor_string split)
qed

text \<open>
  C4 as stated fails: a row of two integer columns whose first value is \<open>2 ^ 53 + 1\<close>
  has the sort key \<^verbatim>\<open>9007199254740993:1\<close>, and the decoder maps the first field to
  9007199254740992, which is not the value of the row.
\<close>

theorem sortKeyValue_roundtrip_counterexample:
  "sortKeyValue int_num decimal_int
       [\<lparr> field = Some ''a'', order = ''ASC'' \<rparr>, \<lparr> field = Some ''b'', order = ''DESC'' \<rparr>]
       (\<lambda>k. if k = ''a'' then 9007199254740993 else 1)
     = CStr ''9007199254740993:1''
   \<and> parseCursor [\<lparr> field = Some ''a'', order = ''ASC'' \<rparr>, \<lparr> field = Some ''b'', order = ''DESC'' \<rparr>]
                 (CStr ''9007199254740993:1'')
       = Inr [''a'' \<mapsto> VNum (Num 9007199254740992), ''b'' \<mapsto> VNum (Num 1)]
   \<and> row_mapping int_num
       [\<lparr> field = Some ''a'', order = ''ASC'' \<rparr>, \<lparr> field = Some ''b'', order = ''DESC'' \<rparr>]
       (\<lambda>k. if k = ''a'' then 9007199254740993 else 1) ''a''
       = Some (VNum (Num 9007199254740993))
   \<and> parseCursor [\<lparr> field = Some ''a'', order = ''ASC'' \<rparr>, \<lparr> field = Some ''b'', order = ''DESC'' \<rparr>]
        (sortKeyValue int_num decimal_int
           [\<lparr> field = Some ''a'', order = ''ASC'' \<rparr>, \<lparr> field = Some ''b'', order = ''DESC'' \<rparr>]
           (\<lambda>k. if k = ''a'' then 9007199254740993 else 1))
       \<noteq> Inr (row_mapping int_num
                [\<lparr> field = Some ''a'', order = ''ASC'' \<rparr>, \<lparr> field = Some ''b'', order = ''DESC'' \<rparr>]
                (\<lambda>k. if k = ''a'' then 9007199254740993 else 1))"
proof -
  let ?f = "[\<lparr> field = Some ''a'', order = ''ASC'' \<rparr>, \<lparr> field = Some ''b'', order = ''DESC'' \<rparr>]"
  let ?row = "\<lambda>k. if k = ''a'' then 9007199254740993 else 1 :: int"
  have k: "sortKeyValue int_num decimal_int ?f ?row = CStr ''9007199254740993:1''"
    by code_simp
  have n1: "Number ''9007199254740993'' = Num 9007199254740992" by code_simp
  have n2: "Number ''1'' = Num 1" by code_simp
  have s: "str_split CHR '':'' ''9007199254740993:1'' = [''9007199254740993'', ''1'']"
    by code_simp
  have l: "parseCursor_loop ?f [Num 9007199254740992, Num 1] 0 Map.empty
             = [''a'' \<mapsto> VNum (Num 9007199254740992), ''b'' \<mapsto> VNum (Num 1)]"
    by (simp add: parseCursor_loop_step parseCursor_loop_done values_at_def ToString_def)
  have p: "parseCursor ?f (CStr ''9007199254740993:1'')
             = Inr [''a'' \<mapsto> VNum (Num 9007199254740992), ''b'' \<mapsto> VNum (Num 1)]"
    by (simp only: parseCursor_string s list.map n1 n2 l)
  have m: "row_mapping int_num ?f ?row ''a'' = Some (VNum (Num 9007199254740993))"
    by (simp add: row_mapping_def ToString_def int_num_def)
  have "[''a'' \<mapsto> VNum (Num 9007199254740992), ''b'' \<mapsto> VNum (Num 1)] ''a''
          \<noteq> row_mapping int_num ?f ?row ''a''"
    unfolding m by simp
  then have d: "[''a'' \<mapsto> VNum (Num 9007199254740992), ''b'' \<mapsto> VNum (Num 1)]
          \<noteq> row_mapping int_num ?f ?row"
    by metis
  show ?thesis
    using k p m d by simp
qed

text \<open>
  C4, as the code has it. For one sort field the decoder gives back the value of the
  row. For several fields it gives back the mapping of the field names to the row's
  values whenever the text of each value has no \<^verbatim>\<open>:\<close> and \<^verbatim>\<open>Number\<close> reads it back as
  that value: so it is for every row of integers of magnitude at most \<open>2 ^ 53\<close>,
  printed in decimal notation. The row \<open>(5, -10)\<close> has the sort key \<^verbatim>\<open>5:-10\<close>.
\<close>

theorem sortKeyValue_roundtrip:
  "parseCursor [f] (sortKeyValue num txt [f] row) = Inr (row_mapping num [f] row)
   \<and> (flds \<noteq> []
        \<and> (\<forall>f\<in>set flds. Number (txt (row (ToString (field f)))) = num (row (ToString (field f)))
                           \<and> CHR '':'' \<notin> set (txt (row (ToString (field f)))))
      \<longrightarrow> parseCursor flds (sortKeyValue num txt flds row) = Inr (row_mapping num flds row))
   \<and> (flds \<noteq> [] \<and> (\<forall>f\<in>set flds. \<bar>irow (ToString (field f))\<bar> \<le> 2 ^ 53)
      \<longrightarrow> parseCursor flds (sortKeyValue int_num decimal_int flds irow)
            = Inr (row_mapping int_num flds irow))
   \<and> sortKeyValue int_num decimal_int
       [\<lparr> field = Some ''a'', order = ''ASC'' \<rparr>, \<lparr> field = Some ''b'', order = ''DESC'' \<rparr>]
       (\<lambda>k. if k = ''a'' then 5 else - 10) = CStr ''5:-10''
   \<and> parseCursor [\<lparr> field = Some ''a'', order = ''ASC'' \<rparr>, \<lparr> field = Some ''b'', order = ''DESC'' \<rparr>]
                 (CStr ''5:-10'')
       = Inr [''a'' \<mapsto> VNum (Num 5), ''b'' \<mapsto> VNum (Num (- 10))]"
proof -
  let ?f = "[\<lparr> field = Some ''a'', order = ''ASC'' \<rparr>, \<lparr> field = Some ''b'', order = ''DESC'' \<rparr>]"
  have a: "parseCursor [f] (sortKeyValue num txt [f] row) = Inr (row_mapping num [f] row)"
    by (rule sortKeyValue_single)
  have b: "parseCursor flds (sortKeyValue num txt flds row) = Inr (row_mapping num flds row)"
    if "flds \<noteq> []"
       "\<forall>f\<in>set flds. Number (txt (row (ToString (field f)))) = num (row (ToString (field f)))
                           \<and> CHR '':'' \<notin> set (txt (row (ToString (field f))))"
    using that by (rule sortKeyValue_read_back)
  have c: "parseCursor flds (sortKeyValue int_num decimal_int flds irow)
            = Inr (row_mapping int_num flds irow)"
    if "flds \<noteq> []" "\<forall>f\<in>set flds. \<bar>irow (ToString (field f))\<bar> \<le> 2 ^ 53"
    using that by (intro sortKeyValue_read_back) (simp_all add: Number_decimal_int decimal_int_no_colon)
  have d: "sortKeyValue int_num decimal_int ?f (\<lambda>k. if k = ''a'' then 5 else - 10) = CStr ''5:-10''"
    by code_simp
  have n1: "Number ''5'' = Num 5" by code_simp
  have n2: "Number ''-10'' = Num (- 10)" by code_simp
  have s: "str_split CHR '':'' ''5:-10'' = [''5'', ''-10'']" by code_simp
  have l: "parseCursor_loop ?f [Num 5, Num (- 10)] 0 Map.empty
             = [''a'' \<mapsto> VNum (Num 5), ''b'' \<mapsto> VNum (Num (- 10))]"
    by (simp add: parseCursor_loop_step parseCursor_loop_done values_at_def ToString_def)
  have e: "parseCursor ?f (CStr ''5:-10'') = Inr [''a'' \<mapsto> VNum (Num 5), ''b'' \<mapsto> VNum (Num (- 10))]"
    by (simp only: parseCursor_string s list.map n1 n2 l)
  from a b c d e show ?thesis by blast
qed

theorem sortKeyValue_roundtrip_witness:
  "[\<lparr> field = Some ''a'', order = ''ASC'' \<rparr>, \<lparr> field = Some ''b'', order = ''DESC'' \<rparr>] \<noteq> []
   \<and> Number ''1.5'' = Num (3 / 2) \<and> CHR '':'' \<notin> set ''1.5''
   \<and> Number ''-0.25'' = Num (- 1 / 4) \<and> CHR '':'' \<notin> set ''-0.25''
   \<and> sortKeyValue Num (\<lambda>q. if q = 3 / 2 then ''1.5'' else ''-0.25'')
        [\<lparr> field = Some ''a'', order = ''ASC'' \<rparr>, \<lparr> field = Some ''b'', order = ''DESC'' \<rparr>]
        (\<lambda>k. if k = ''a'' then 3 / 2 else - 1 / 4) = CStr ''1.5:-0.25''
   \<and> parseCursor [\<lparr> field = Some ''a'', order = ''ASC'' \<rparr>, \<lparr> field = Some ''b'', order = ''DESC'' \<rparr>]
                 (CStr ''1.5:-0.25'')
       = Inr [''a'' \<mapsto> VNum (Num (3 / 2)), ''b'' \<mapsto> VNum (Num (- 1 / 4))]
   \<and> \<bar>7 :: int\<bar> \<le> 2 ^ 53 \<and> \<bar>- 3 :: int\<bar> \<le> 2 ^ 53
   \<and> sortKeyValue int_num decimal_int
        [\<lparr> field = Some ''a'', order = ''ASC'' \<rparr>, \<lparr> field = Some ''b'', order = ''DESC'' \<rparr>]
        (\<lambda>k. if k = ''a'' then 7 else - 3) = CStr ''7:-3''
   \<and> parseCursor [\<lparr> field = Some ''a'', order = ''ASC'' \<rparr>, \<lparr> field = Some ''b'', order = ''DESC'' \<rparr>]
                 (CStr ''7:-3'')
       = Inr [''a'' \<mapsto> VNum (Num 7), ''b'' \<mapsto> VNum (Num (- 3))]"
proof -
  let ?f = "[\<lparr> field = Some ''a'', order = ''ASC'' \<rparr>, \<lparr> field = Some ''b'', order = ''DESC'' \<rparr>]"
  let ?txt = "\<lambda>q :: rat. if q = 3 / 2 then ''1.5'' else ''-0.25''"
  let ?row = "\<lambda>k. if k = ''a'' then 3 / 2 else - 1 / 4 :: rat"
  let ?irow = "\<lambda>k. if k = ''a'' then 7 else - 3 :: int"
  have ne: "?f \<noteq> []" by simp
  have n1: "Number ''1.5'' = Num (3 / 2)" by code_simp
  have n2: "Number ''-0.25'' = Num (- 1 / 4)" by code_simp
  have c1: "CHR '':'' \<notin> set ''1.5''" by simp
  have c2: "CHR '':'' \<notin> set ''-0.25''" by simp
  have k: "sortKeyValue Num ?txt ?f ?row = CStr ''1.5:-0.25''"
    by (simp add: sortKeyValue_def ToString_def)
  have m: "row_mapping Num ?f ?row = [''a'' \<mapsto> VNum (Num (3 / 2)), ''b'' \<mapsto> VNum (Num (- 1 / 4))]"
    by (rule ext) (simp add: row_mapping_def ToString_def)
  have h: "\<forall>f\<in>set ?f. Number (?txt (?row (ToString (field f)))) = Num (?row (ToString (field f)))
                           \<and> CHR '':'' \<notin> set (?txt (?row (ToString (field f))))"
    using n1 n2 by (simp add: ToString_def)
  have ik: "sortKeyValue int_num decimal_int ?f ?irow = CStr ''7:-3''" by code_simp
  have im: "row_mapping int_num ?f ?irow = [''a'' \<mapsto> VNum (Num 7), ''b'' \<mapsto> VNum (Num (- 3))]"
    by (rule ext) (simp add: row_mapping_def ToString_def int_num_def)
  have ih: "\<forall>f\<in>set ?f. \<bar>?irow (ToString (field f))\<bar> \<le> 2 ^ 53"
    by (simp add: ToString_def)
  note t = sortKeyValue_roundtrip [of _ Num "?txt" "?row" "?f" "?irow"]
  have r1: "parseCursor ?f (sortKeyValue Num ?txt ?f ?row) = Inr (row_mapping Num ?f ?row)"
    using t ne h by blast
  have r2: "parseCursor ?f (sortKeyValue int_num decimal_int ?f ?irow)
              = Inr (row_mapping int_num ?f ?irow)"
    using t ne ih by blast
  have i1: "\<bar>7 :: int\<bar> \<le> 2 ^ 53" by simp
  have i2: "\<bar>- 3 :: int\<bar> \<le> 2 ^ 53" by simp
  show ?thesis
    using ne n1 n2 c1 c2 k r1 [unfolded k m] ik r2 [unfolded ik im] i1 i2 by blast
qed

end
